theory Spec2Isabelle
  imports Main "HOL-Library.Word"
begin

unbundle bit_operations_syntax

section \<open>Errors and results\<close>

text \<open>
  \<^verbatim>\<open>RegexError\<close> carries a message and a position in the pattern. Bytes are
  \<^typ>\<open>char\<close>, patterns and texts are \<^typ>\<open>string\<close>. Sizes and text offsets
  (\<^verbatim>\<open>size_t\<close>) are natural numbers; \<^verbatim>\<open>std::string::npos\<close> is the largest
  64-bit value.
\<close>

datatype RegexError = RegexError string nat

definition npos :: nat where
  "npos = 2 ^ 64 - 1"

record Match =
  m_start :: nat
  m_end :: nat
  captured :: string

record MatchResult =
  matched :: bool
  position :: nat
  matched_text :: string
  captures :: "Match list"

definition result_length :: "MatchResult \<Rightarrow> nat" where
  "result_length r = length (matched_text r)"

definition group :: "MatchResult \<Rightarrow> int \<Rightarrow> string" where
  "group r idx =
     (if idx = 0 then matched_text r
      else if idx > 0 \<and> idx \<le> int (length (captures r))
        then captured (captures r ! nat (idx - 1))
      else [])"

section \<open>Character classes\<close>

definition backslash :: char where
  "backslash = CHR 0x5C"

definition DIGIT_MASK :: "64 word" where
  "DIGIT_MASK =
     push_bit (of_char CHR ''0'' :: nat) 1 OR push_bit (of_char CHR ''1'' :: nat) 1 OR
     push_bit (of_char CHR ''2'' :: nat) 1 OR push_bit (of_char CHR ''3'' :: nat) 1 OR
     push_bit (of_char CHR ''4'' :: nat) 1 OR push_bit (of_char CHR ''5'' :: nat) 1 OR
     push_bit (of_char CHR ''6'' :: nat) 1 OR push_bit (of_char CHR ''7'' :: nat) 1 OR
     push_bit (of_char CHR ''8'' :: nat) 1 OR push_bit (of_char CHR ''9'' :: nat) 1"

definition SPACE_MASK :: "64 word" where
  "SPACE_MASK =
     push_bit (of_char CHR '' '' :: nat) 1 OR push_bit (of_char CHR 0x09 :: nat) 1 OR
     push_bit (of_char CHR 0x0C :: nat) 1 OR push_bit (of_char CHR 0x0D :: nat) 1 OR
     push_bit (of_char CHR 0x0A :: nat) 1 OR push_bit (of_char CHR 0x0B :: nat) 1"

text \<open>\<^verbatim>\<open>char\<close> is signed on the platforms the engine is built for: comparisons
  between bytes and the conversion to \<^verbatim>\<open>int\<close> go through the signed value.\<close>

definition schar :: "char \<Rightarrow> int" where
  "schar c = (if (of_char c :: int) < 128 then of_char c else of_char c - 256)"

definition uchar :: "char \<Rightarrow> nat" where
  "uchar c = of_char c"

definition isDigit :: "char \<Rightarrow> bool" where
  "isDigit c \<longleftrightarrow> schar c \<ge> schar CHR ''0'' \<and> schar c \<le> schar CHR ''9''"

definition isUpper :: "char \<Rightarrow> bool" where
  "isUpper c \<longleftrightarrow> schar c \<ge> schar CHR ''A'' \<and> schar c \<le> schar CHR ''Z''"

definition isLower :: "char \<Rightarrow> bool" where
  "isLower c \<longleftrightarrow> schar c \<ge> schar CHR ''a'' \<and> schar c \<le> schar CHR ''z''"

definition isAlpha :: "char \<Rightarrow> bool" where
  "isAlpha c \<longleftrightarrow> isUpper c \<or> isLower c"

definition isSpace :: "char \<Rightarrow> bool" where
  "isSpace c \<longleftrightarrow> c = CHR '' '' \<or> c = CHR 0x09 \<or> c = CHR 0x0A \<or> c = CHR 0x0D \<or>
     c = CHR 0x0C \<or> c = CHR 0x0B"

definition isWordChar :: "char \<Rightarrow> bool" where
  "isWordChar c \<longleftrightarrow> isAlpha c \<or> isDigit c \<or> c = CHR ''_''"

definition inClassExt :: "64 word \<Rightarrow> 64 word \<Rightarrow> char \<Rightarrow> bool" where
  "inClassExt low high c =
     (let uc = uchar c in
      if uc < 64 then (low AND push_bit uc 1) \<noteq> 0
      else if uc < 128 then (high AND push_bit (uc - 64) 1) \<noteq> 0
      else False)"

section \<open>Lexer\<close>

datatype TokenType =
  UNKNOWN | LITERAL | DOT | LPAREN | RPAREN | LBRACE | RBRACE | LBRACKET | RBRACKET |
  PIPE | STAR | PLUS | QUESTION | CARET | DOLLAR | ESCAPE | BACKREF | RANGE | COMMA

datatype Token = Token (tok_type: TokenType) (tok_value: char) (tok_position: nat)

text \<open>
  The lexer state is the offset \<^verbatim>\<open>pos_\<close> together with the bytes of the pattern from
  that offset on. \<^verbatim>\<open>nextToken\<close> returns the token, the new offset and the remaining
  bytes, or the error it throws. \<open>switch_type\<close> is the table of the single-byte cases of
  its \<^verbatim>\<open>switch\<close>.
\<close>

definition switch_type :: "char \<Rightarrow> TokenType option" where
  "switch_type c =
     (if c = CHR ''.'' then Some DOT
      else if c = CHR ''('' then Some LPAREN
      else if c = CHR '')'' then Some RPAREN
      else if c = CHR ''{'' then Some LBRACE
      else if c = CHR ''}'' then Some RBRACE
      else if c = CHR ''['' then Some LBRACKET
      else if c = CHR '']'' then Some RBRACKET
      else if c = CHR ''|'' then Some PIPE
      else if c = CHR ''*'' then Some STAR
      else if c = CHR ''+'' then Some PLUS
      else if c = CHR ''?'' then Some QUESTION
      else if c = CHR ''^'' then Some CARET
      else if c = CHR ''$'' then Some DOLLAR
      else if c = CHR ''-'' then Some RANGE
      else if c = CHR '','' then Some COMMA
      else None)"

fun nextToken :: "nat \<Rightarrow> string \<Rightarrow> RegexError + (Token \<times> nat \<times> string)" where
  "nextToken pos [] = Inr (Token UNKNOWN (CHR 0x00) pos, pos, [])"
| "nextToken pos (c # cs) =
     (case switch_type c of
        Some ty \<Rightarrow> Inr (Token ty c pos, Suc pos, cs)
      | None \<Rightarrow>
          if c = backslash then
            (case cs of
               [] \<Rightarrow> Inl (RegexError ''Incomplete escape sequence'' pos)
             | esc # cs' \<Rightarrow> Inr (Token ESCAPE esc pos, Suc (Suc pos), cs'))
          else if c = CHR '' '' \<or> c = CHR 0x09 then nextToken (Suc pos) cs
          else Inr (Token LITERAL c pos, Suc pos, cs))"

lemma nextToken_shorter:
  "nextToken pos cs = Inr (tok, pos', cs') \<Longrightarrow> cs \<noteq> [] \<Longrightarrow> length cs' < length cs"
proof (induction pos cs rule: nextToken.induct)
  case (1 pos)
  then show ?case by simp
next
  case (2 pos c cs)
  show ?case
  proof (cases "switch_type c = None \<and> c \<noteq> backslash \<and> (c = CHR '' '' \<or> c = CHR 0x09)")
    case True
    then have eq: "nextToken pos (c # cs) = nextToken (Suc pos) cs"
      by simp
    show ?thesis
    proof (cases "cs = []")
      case True
      with eq "2.prems" show ?thesis by simp
    next
      case False
      with eq "2.prems" have "length cs' < length cs"
        using "2.IH" True by simp
      then show ?thesis by simp
    qed
  next
    case False
    with "2.prems" show ?thesis
      by (auto split: option.splits if_splits list.splits)
  qed
qed

function tokenize_from :: "nat \<Rightarrow> string \<Rightarrow> RegexError + Token list" where
  "tokenize_from pos cs =
     (if cs = [] then Inr []
      else (case nextToken pos cs of
              Inl e \<Rightarrow> Inl e
            | Inr (tok, pos', cs') \<Rightarrow>
                (case tokenize_from pos' cs' of
                   Inl e \<Rightarrow> Inl e
                 | Inr toks \<Rightarrow> Inr (tok # toks))))"
  by pat_completeness auto
termination
  by (relation "measure (\<lambda>(pos, cs). length cs)") (auto dest: nextToken_shorter)

declare tokenize_from.simps [simp del]

definition tokenize :: "string \<Rightarrow> RegexError + Token list" where
  "tokenize pattern = tokenize_from 0 pattern"

section \<open>Abstract syntax\<close>

text \<open>
  \<^verbatim>\<open>ASTNode\<close> is a struct with a type tag; only the fields that the tag's factory
  function or the parser sets are kept. \<open>class_type\<close> is \<open>-1\<close> for a bracket expression
  and the \<^verbatim>\<open>ClassType\<close> constant for \<^verbatim>\<open>\d \w \s\<close>.
\<close>

datatype ASTNode =
  Literal char
| Dot
| Concat ASTNode ASTNode
| Alternate ASTNode ASTNode
| Repeat ASTNode "32 word" "32 word" bool
| ClassNode "64 word" "64 word" int
| NotClassNode "64 word" "64 word" int
| AnchorStartNode
| AnchorEndNode
| Group ASTNode int
| Backref int

definition CLASS_DIGIT :: int where "CLASS_DIGIT = 0"
definition CLASS_WORD :: int where "CLASS_WORD = 1"
definition CLASS_SPACE :: int where "CLASS_SPACE = 2"

definition UINT32_MAX :: "32 word" where
  "UINT32_MAX = - 1"

section \<open>Parser\<close>

text \<open>
  The parser state is the list of tokens from \<^verbatim>\<open>pos_\<close> on and the counter
  \<^verbatim>\<open>currentCapture_\<close>. Past the end, \<^verbatim>\<open>peek\<close> and \<^verbatim>\<open>consume\<close> return an
  \<^verbatim>\<open>UNKNOWN\<close> token with value 0 and position 0.
\<close>

definition peek :: "Token list \<Rightarrow> Token" where
  "peek ts = (case ts of [] \<Rightarrow> Token UNKNOWN (CHR 0x00) 0 | t # _ \<Rightarrow> t)"

definition consume :: "Token list \<Rightarrow> Token \<times> Token list" where
  "consume ts = (case ts of [] \<Rightarrow> (Token UNKNOWN (CHR 0x00) 0, []) | t # r \<Rightarrow> (t, r))"

definition Parser_match :: "TokenType \<Rightarrow> Token list \<Rightarrow> bool \<times> Token list" where
  "Parser_match ty ts = (if tok_type (peek ts) = ty then (True, tl ts) else (False, ts))"

definition isQuantifierStart :: "Token list \<Rightarrow> bool" where
  "isQuantifierStart ts =
     (tok_type (peek ts) \<in> {LITERAL, RANGE, DOT, LPAREN, LBRACKET, ESCAPE, CARET, DOLLAR})"

fun parseNumber_loop :: "32 word \<Rightarrow> Token list \<Rightarrow> 32 word \<times> Token list" where
  "parseNumber_loop result [] = (result, [])"
| "parseNumber_loop result (t # ts) =
     (if tok_type t = LITERAL \<and> isDigit (tok_value t)
      then parseNumber_loop (result * 10 + word_of_int (schar (tok_value t) - schar CHR ''0'')) ts
      else (result, t # ts))"

definition parseNumber :: "Token list \<Rightarrow> 32 word \<times> Token list" where
  "parseNumber ts = parseNumber_loop 0 ts"

definition parseHexDigit :: "char \<Rightarrow> nat" where
  "parseHexDigit c =
     (if schar c \<ge> schar CHR ''0'' \<and> schar c \<le> schar CHR ''9'' then nat (schar c - schar CHR ''0'')
      else if schar c \<ge> schar CHR ''a'' \<and> schar c \<le> schar CHR ''f''
        then nat (schar c - schar CHR ''a'' + 10)
      else if schar c \<ge> schar CHR ''A'' \<and> schar c \<le> schar CHR ''F''
        then nat (schar c - schar CHR ''A'' + 10)
      else 0)"

text \<open>The two iterations of the \<^verbatim>\<open>\x\<close> loop of a bracket expression; the value is a
  \<^verbatim>\<open>uint8_t\<close>.\<close>

definition parseHexValue :: "Token list \<Rightarrow> nat \<times> Token list" where
  "parseHexValue ts =
     (if tok_type (peek ts) = LITERAL then
        (let (t1, ts1) = consume ts;
             v1 = (0 * 16 + parseHexDigit (tok_value t1)) mod 256
         in if tok_type (peek ts1) = LITERAL then
              (let (t2, ts2) = consume ts1
               in ((v1 * 16 + parseHexDigit (tok_value t2)) mod 256, ts2))
            else (v1, ts1))
      else (0, ts))"

text \<open>The bits that one escape inside a bracket expression contributes:
  \<^verbatim>\<open>bits\<close>, \<^verbatim>\<open>bits_high\<close> and the tokens left after it.\<close>

definition classEscapeBits :: "char \<Rightarrow> Token list \<Rightarrow> 64 word \<times> 64 word \<times> Token list" where
  "classEscapeBits esc ts =
     (if esc = CHR ''d'' then (DIGIT_MASK, 0, ts)
      else if esc = CHR ''D'' then (DIGIT_MASK, 0, ts)
      else if esc = CHR ''w'' then (0, 0, ts)
      else if esc = CHR ''W'' then (0, 0, ts)
      else if esc = CHR ''s'' then (SPACE_MASK, 0, ts)
      else if esc = CHR ''S'' then (SPACE_MASK, 0, ts)
      else if esc = CHR ''t'' then (push_bit (9::nat) 1, 0, ts)
      else if esc = CHR ''r'' then (push_bit (13::nat) 1, 0, ts)
      else if esc = CHR ''n'' then (push_bit (10::nat) 1, 0, ts)
      else if esc = CHR ''f'' then (push_bit (12::nat) 1, 0, ts)
      else if esc = CHR ''v'' then (push_bit (11::nat) 1, 0, ts)
      else if esc = CHR ''a'' then (push_bit (7::nat) 1, 0, ts)
      else if esc = CHR ''e'' then (push_bit (27::nat) 1, 0, ts)
      else if esc = CHR ''x'' then
        (let (v, ts') = parseHexValue ts
         in if v < 64 then (push_bit v 1, 0, ts')
            else if v < 128 then (0, push_bit (v - 64) 1, ts')
            else (0, 0, ts'))
      else if uchar esc < 64 then (push_bit (uchar esc) 1, 0, ts)
      else if uchar esc < 128 then (0, push_bit (uchar esc - 64) 1, ts)
      else (0, 0, ts))"

definition addClassChar :: "nat \<Rightarrow> 64 word \<times> 64 word \<Rightarrow> 64 word \<times> 64 word" where
  "addClassChar uc m =
     (if uc < 64 then (fst m OR push_bit uc 1, snd m)
      else if uc < 128 then (fst m, snd m OR push_bit (uc - 64) 1)
      else m)"

text \<open>The loop \<^verbatim>\<open>for (int i = c; i <= end_char; ++i)\<close> of a range \<^verbatim>\<open>A-B\<close>.\<close>

definition addClassRange :: "char \<Rightarrow> char \<Rightarrow> 64 word \<times> 64 word \<Rightarrow> 64 word \<times> 64 word" where
  "addClassRange c end_char m =
     fold (\<lambda>i. addClassChar (nat (i mod 256))) [schar c .. schar end_char] m"

lemma parseHexValue_length: "length (snd (parseHexValue ts)) \<le> length ts"
  by (cases ts; cases "tl ts")
     (auto simp: parseHexValue_def peek_def consume_def Let_def split: prod.splits)

lemma classEscapeBits_length: "classEscapeBits esc ts = (b, bh, ts') \<Longrightarrow> length ts' \<le> length ts"
  using parseHexValue_length [of ts]
  by (auto simp: classEscapeBits_def Let_def split: if_splits prod.splits)

function parseCharacterClass_loop ::
  "bool \<Rightarrow> 64 word \<Rightarrow> 64 word \<Rightarrow> Token list \<Rightarrow> 64 word \<times> 64 word \<times> Token list" where
  "parseCharacterClass_loop negated low_mask high_mask ts =
     (if tok_type (peek ts) \<noteq> RBRACKET \<and> tok_type (peek ts) \<noteq> UNKNOWN then
        (if tok_type (peek ts) = ESCAPE then
           (let (t, ts1) = consume ts;
                (bits, bits_high, ts2) = classEscapeBits (tok_value t) ts1
            in if negated
               then parseCharacterClass_loop negated (low_mask OR bits) (high_mask OR bits_high) ts2
               else parseCharacterClass_loop negated (low_mask OR bits) (high_mask OR bits_high) ts2)
         else
           (let (t, ts1) = consume ts
            in if tok_type (peek ts1) = RANGE then
                 (let (r, ts2) = consume ts1;
                      (e, ts3) = consume ts2;
                      (lo, hi) = addClassRange (tok_value t) (tok_value e) (low_mask, high_mask)
                  in parseCharacterClass_loop negated lo hi ts3)
               else
                 (let (lo, hi) = addClassChar (uchar (tok_value t)) (low_mask, high_mask)
                  in parseCharacterClass_loop negated lo hi ts1)))
      else (low_mask, high_mask, ts))"
  by pat_completeness auto
termination
proof (relation "measure (\<lambda>(negated, low_mask, high_mask, ts). length ts)", goal_cases)
  case 1
  show ?case by simp
next
  case (2 negated low_mask high_mask ts x t ts1 y bits z bits_high ts2)
  then show ?case
    using classEscapeBits_length [of "tok_value t" ts1 bits bits_high ts2]
    by (cases ts) (auto simp: peek_def consume_def)
next
  case (3 negated low_mask high_mask ts x t ts1 y bits z bits_high ts2)
  then show ?case
    using classEscapeBits_length [of "tok_value t" ts1 bits bits_high ts2]
    by (cases ts) (auto simp: peek_def consume_def)
next
  case (4 negated low_mask high_mask ts x t ts1 xa r ts2 xb e ts3)
  then show ?case
    by (cases ts; cases ts1; cases ts2) (auto simp: peek_def consume_def)
next
  case (5 negated low_mask high_mask ts x t ts1 xb lo hi)
  then show ?case
    by (cases ts) (auto simp: peek_def consume_def)
qed

declare parseCharacterClass_loop.simps [simp del]

definition parseCharacterClass :: "Token list \<Rightarrow> ASTNode \<times> Token list" where
  "parseCharacterClass ts =
     (let (negated, ts1) =
            (if tok_type (peek ts) = CARET then (True, snd (consume ts)) else (False, ts));
          (low_mask, high_mask, ts2) = parseCharacterClass_loop negated 0 0 ts1
      in ((if negated then NotClassNode low_mask high_mask (- 1)
           else ClassNode low_mask high_mask (- 1)), ts2))"

definition parseEscape :: "Token \<Rightarrow> ASTNode" where
  "parseEscape escTok =
     (let esc = tok_value escTok
      in if esc = CHR ''d'' then ClassNode 0 0 CLASS_DIGIT
         else if esc = CHR ''D'' then NotClassNode 0 0 CLASS_DIGIT
         else if esc = CHR ''w'' then ClassNode 0 0 CLASS_WORD
         else if esc = CHR ''W'' then NotClassNode 0 0 CLASS_WORD
         else if esc = CHR ''s'' then ClassNode 0 0 CLASS_SPACE
         else if esc = CHR ''S'' then NotClassNode 0 0 CLASS_SPACE
         else if esc = CHR ''b'' \<or> esc = CHR ''B'' then Literal CHR ''b''
         else if esc = CHR ''t'' then Literal (CHR 0x09)
         else if esc = CHR ''r'' then Literal (CHR 0x0D)
         else if esc = CHR ''n'' then Literal (CHR 0x0A)
         else if esc = CHR ''f'' then Literal (CHR 0x0C)
         else if esc = CHR ''v'' then Literal (CHR 0x0B)
         else Literal esc)"

text \<open>
  The recursive descent. A parser function returns the node, the tokens left and the
  capture counter, or the \<^verbatim>\<open>RegexError\<close> it throws. The first argument bounds the
  depth of the calls (every call and every loop iteration takes one unit); \<open>None\<close> is
  the bound being too small and is no result of the parser.
\<close>

type_synonym 'a presult = "(RegexError + ('a \<times> Token list \<times> int)) option"

definition quantifierSuffix :: "ASTNode \<Rightarrow> Token list \<Rightarrow> RegexError + (ASTNode \<times> Token list)" where
  "quantifierSuffix atom ts =
     (let t = peek ts
      in if tok_type t = STAR then Inr (Repeat atom 0 UINT32_MAX True, snd (consume ts))
         else if tok_type t = PLUS then Inr (Repeat atom 1 UINT32_MAX True, snd (consume ts))
         else if tok_type t = QUESTION then Inr (Repeat atom 0 1 True, snd (consume ts))
         else if tok_type t = LBRACE then
           (let ts1 = snd (consume ts);
                (mn, ts2) = parseNumber ts1;
                (mx, ts3) = (case Parser_match COMMA ts2 of
                               (True, ts') \<Rightarrow> parseNumber ts'
                             | (False, ts') \<Rightarrow> (mn, ts'))
            in case Parser_match RBRACE ts3 of
                 (True, ts4) \<Rightarrow> Inr (Repeat atom mn mx True, ts4)
               | (False, ts4) \<Rightarrow>
                   Inl (RegexError ''Expected '}' after quantifier'' (tok_position t)))
         else Inr (atom, ts))"

definition closeGroup ::
  "string \<Rightarrow> Token \<Rightarrow> (ASTNode \<Rightarrow> int \<Rightarrow> ASTNode) \<Rightarrow> ASTNode presult \<Rightarrow> ASTNode presult" where
  "closeGroup msg t wrap r =
     (case r of
        None \<Rightarrow> None
      | Some (Inl e) \<Rightarrow> Some (Inl e)
      | Some (Inr (node, ts, cap)) \<Rightarrow>
          (case Parser_match RPAREN ts of
             (True, ts') \<Rightarrow> Some (Inr (wrap node cap, ts', cap))
           | (False, ts') \<Rightarrow> Some (Inl (RegexError msg (tok_position t)))))"

text \<open>The cases of the \<^verbatim>\<open>switch\<close> of \<^verbatim>\<open>parseAtom\<close> other than \<^verbatim>\<open>LPAREN\<close>, for the
  consumed token \<open>t\<close>: they do not recurse.\<close>

definition parseAtom_switch :: "Token \<Rightarrow> Token list \<Rightarrow> int \<Rightarrow> ASTNode presult" where
  "parseAtom_switch t ts1 cap =
     (if tok_type t = LITERAL then Some (Inr (Literal (tok_value t), ts1, cap))
      else if tok_type t = RANGE then Some (Inr (Literal CHR ''-'', ts1, cap))
      else if tok_type t = COMMA then Some (Inr (Literal CHR '','', ts1, cap))
      else if tok_type t = DOT then Some (Inr (Dot, ts1, cap))
      else if tok_type t = LBRACKET then
        (let (classNode, ts2) = parseCharacterClass ts1
         in case Parser_match RBRACKET ts2 of
              (True, ts3) \<Rightarrow> Some (Inr (classNode, ts3, cap))
            | (False, ts3) \<Rightarrow>
                Some (Inl (RegexError ''Expected ']' to close character class''
                             (tok_position t))))
      else if tok_type t = ESCAPE then Some (Inr (parseEscape t, ts1, cap))
      else if tok_type t = BACKREF then
        (let (g, ts2) = parseNumber ts1 in Some (Inr (Backref (sint g), ts2, cap)))
      else if tok_type t = CARET then Some (Inr (AnchorStartNode, ts1, cap))
      else if tok_type t = DOLLAR then Some (Inr (AnchorEndNode, ts1, cap))
      else Some (Inl (RegexError ''Unexpected token'' (tok_position t))))"

function (sequential) parseAlternation :: "nat \<Rightarrow> Token list \<Rightarrow> int \<Rightarrow> ASTNode presult"
  and parseAlternation_loop :: "nat \<Rightarrow> ASTNode \<Rightarrow> Token list \<Rightarrow> int \<Rightarrow> ASTNode presult"
  and parseConcatenation :: "nat \<Rightarrow> Token list \<Rightarrow> int \<Rightarrow> ASTNode presult"
  and parseConcatenation_loop :: "nat \<Rightarrow> ASTNode \<Rightarrow> Token list \<Rightarrow> int \<Rightarrow> ASTNode presult"
  and parseQuantifier :: "nat \<Rightarrow> Token list \<Rightarrow> int \<Rightarrow> ASTNode presult"
  and parseAtom :: "nat \<Rightarrow> Token list \<Rightarrow> int \<Rightarrow> ASTNode presult"
where
  "parseAlternation 0 ts cap = None"
| "parseAlternation (Suc n) ts cap =
     (case parseConcatenation n ts cap of
        None \<Rightarrow> None
      | Some (Inl e) \<Rightarrow> Some (Inl e)
      | Some (Inr (left, ts', cap')) \<Rightarrow> parseAlternation_loop n left ts' cap')"
| "parseAlternation_loop 0 left ts cap = None"
| "parseAlternation_loop (Suc n) left ts cap =
     (case Parser_match PIPE ts of
        (True, ts1) \<Rightarrow>
          (case parseConcatenation n ts1 cap of
             None \<Rightarrow> None
           | Some (Inl e) \<Rightarrow> Some (Inl e)
           | Some (Inr (right, ts', cap')) \<Rightarrow>
               parseAlternation_loop n (Alternate left right) ts' cap')
      | (False, ts1) \<Rightarrow> Some (Inr (left, ts1, cap)))"
| "parseConcatenation 0 ts cap = None"
| "parseConcatenation (Suc n) ts cap =
     (case parseQuantifier n ts cap of
        None \<Rightarrow> None
      | Some (Inl e) \<Rightarrow> Some (Inl e)
      | Some (Inr (left, ts', cap')) \<Rightarrow> parseConcatenation_loop n left ts' cap')"
| "parseConcatenation_loop 0 left ts cap = None"
| "parseConcatenation_loop (Suc n) left ts cap =
     (if isQuantifierStart ts then
        (case parseQuantifier n ts cap of
           None \<Rightarrow> None
         | Some (Inl e) \<Rightarrow> Some (Inl e)
         | Some (Inr (right, ts', cap')) \<Rightarrow>
             parseConcatenation_loop n (Concat left right) ts' cap')
      else Some (Inr (left, ts, cap)))"
| "parseQuantifier 0 ts cap = None"
| "parseQuantifier (Suc n) ts cap =
     (case parseAtom n ts cap of
        None \<Rightarrow> None
      | Some (Inl e) \<Rightarrow> Some (Inl e)
      | Some (Inr (atom, ts', cap')) \<Rightarrow>
          (case quantifierSuffix atom ts' of
             Inl e \<Rightarrow> Some (Inl e)
           | Inr (node, ts'') \<Rightarrow> Some (Inr (node, ts'', cap'))))"
| "parseAtom 0 ts cap = None"
| "parseAtom (Suc n) ts cap =
     (let (t, ts1) = consume ts
      in if tok_type t = LPAREN then
           (if tok_type (peek ts1) = LITERAL \<and> tok_value (peek ts1) = CHR ''?'' then
              (let ts2 = snd (consume ts1)
               in if tok_type (peek ts2) = LITERAL \<and> tok_value (peek ts2) = CHR '':'' then
                    closeGroup ''Expected ')' to close non-capturing group'' t (\<lambda>node c. node)
                      (parseAlternation n (snd (consume ts2)) cap)
                  else Some (Inl (RegexError ''Invalid group modifier'' (tok_position t))))
            else if tok_type (peek ts1) = LITERAL \<and> tok_value (peek ts1) = CHR ''='' then
              closeGroup ''Expected ')' to close lookahead'' t (\<lambda>node c. node)
                (parseAlternation n (snd (consume ts1)) cap)
            else if tok_type (peek ts1) = LITERAL \<and> tok_value (peek ts1) = CHR ''!'' then
              closeGroup ''Expected ')' to close lookahead'' t (\<lambda>node c. node)
                (parseAlternation n (snd (consume ts1)) cap)
            else
              closeGroup ''Expected ')' to close group'' t (\<lambda>node c. Group node c)
                (parseAlternation n ts1 (cap + 1)))
         else parseAtom_switch t ts1 cap)"

  by pat_completeness auto
termination
  by (relation "measure (\<lambda>x. case x of
          Inl (Inl (n, _)) \<Rightarrow> n
        | Inl (Inr (Inl (n, _))) \<Rightarrow> n
        | Inl (Inr (Inr (n, _))) \<Rightarrow> n
        | Inr (Inl (n, _)) \<Rightarrow> n
        | Inr (Inr (Inl (n, _))) \<Rightarrow> n
        | Inr (Inr (Inr (n, _))) \<Rightarrow> n)") auto

text \<open>\<^verbatim>\<open>Parser::parse\<close>, with the node and \<^verbatim>\<open>numCaptures()\<close> as its result. The
  depth bound it starts from grows with the number of tokens.\<close>

definition parse :: "Token list \<Rightarrow> (RegexError + (ASTNode \<times> int)) option" where
  "parse tokens =
     (case parseAlternation (6 * length tokens + 6) tokens 0 of
        None \<Rightarrow> None
      | Some (Inl e) \<Rightarrow> Some (Inl e)
      | Some (Inr (result, ts, cap)) \<Rightarrow>
          (case ts of
             t # _ \<Rightarrow> Some (Inl (RegexError ''Unexpected tokens at end of pattern'' (tok_position t)))
           | [] \<Rightarrow> Some (Inr (result, cap))))"

section \<open>Compiler\<close>

text \<open>
  An instruction is an opcode with the fields the VM reads for that opcode: the byte of
  \<^verbatim>\<open>CHAR\<close>, the two masks of \<^verbatim>\<open>CLASS\<close> and \<^verbatim>\<open>NOT_CLASS\<close>, the class type of
  \<^verbatim>\<open>CLASS_PRED\<close>, the operand of \<^verbatim>\<open>JUMP\<close>, \<^verbatim>\<open>SAVE\<close> and \<^verbatim>\<open>BACKREF\<close>, the operand
  and the \<^verbatim>\<open>charset\<close> field (the second target) of \<^verbatim>\<open>SPLIT\<close>. Addresses are natural
  numbers.
\<close>

datatype Instruction =
  CHAR_op char
| ANY
| RANGE_op char char
| CLASS "64 word" "64 word"
| NOT_CLASS "64 word" "64 word"
| CLASS_PRED int
| JUMP nat
| SPLIT nat nat
| SAVE nat
| MATCH
| ANCHOR_START
| ANCHOR_END
| BACKREF_op nat

fun set_operand :: "nat \<Rightarrow> Instruction \<Rightarrow> Instruction" where
  "set_operand v (JUMP t) = JUMP v"
| "set_operand v (SPLIT t1 t2) = SPLIT v t2"
| "set_operand v (SAVE g) = SAVE v"
| "set_operand v (BACKREF_op g) = BACKREF_op v"
| "set_operand v i = i"

fun set_charset :: "nat \<Rightarrow> Instruction \<Rightarrow> Instruction" where
  "set_charset v (SPLIT t1 t2) = SPLIT t1 v"
| "set_charset v i = i"

definition patch :: "nat \<Rightarrow> (Instruction \<Rightarrow> Instruction) \<Rightarrow> Instruction list \<Rightarrow> Instruction list" where
  "patch pos f code = code[pos := f (code ! pos)]"

definition group_u32 :: "int \<Rightarrow> nat" where
  "group_u32 idx = nat (idx mod 2 ^ 32)"

text \<open>\<^verbatim>\<open>compileNode\<close> appends to \<^verbatim>\<open>instructions_\<close>; \<open>compileNode_times k\<close> is the loop
  that compiles the child of a bounded repetition \<open>k\<close> times.\<close>

function compileNode :: "ASTNode \<Rightarrow> Instruction list \<Rightarrow> Instruction list"
  and compileNode_times :: "nat \<Rightarrow> ASTNode \<Rightarrow> Instruction list \<Rightarrow> Instruction list"
where
  "compileNode (Literal c) code = code @ [CHAR_op c]"
| "compileNode Dot code = code @ [ANY]"
| "compileNode (ClassNode lo hi ct) code =
     (if ct \<ge> 0 then code @ [CLASS_PRED ct]
      else if hi \<noteq> 0 then code @ [CLASS lo hi]
      else code @ [CLASS lo 0])"
| "compileNode (NotClassNode lo hi ct) code =
     (if ct \<ge> 0 then code @ [CLASS_PRED (ct OR 0x10)]
      else if hi \<noteq> 0 then code @ [NOT_CLASS lo hi]
      else code @ [NOT_CLASS lo 0])"
| "compileNode AnchorStartNode code = code @ [ANCHOR_START]"
| "compileNode AnchorEndNode code = code @ [ANCHOR_END]"
| "compileNode (Concat l r) code = compileNode r (compileNode l code)"
| "compileNode (Alternate l r) code =
     (let splitPos = length code;
          code1 = code @ [SPLIT 0 0];
          code2 = compileNode l code1;
          jumpPos = length code2;
          code3 = code2 @ [JUMP 0];
          code4 = patch splitPos (set_operand (splitPos + 1)) code3;
          code5 = patch splitPos (set_charset (jumpPos + 1)) code4;
          code6 = compileNode r code5
      in patch jumpPos (set_operand (length code6)) code6)"
| "compileNode (Repeat child mn mx greedy) code =
     (if mx = UINT32_MAX then
        (if mn = 0 then
           (let splitPos = length code;
                code1 = code @ [SPLIT 0 0];
                bodyStart = splitPos + 1;
                code2 = compileNode child code1;
                jumpPos = length code2;
                code3 = code2 @ [JUMP 0];
                code4 = patch splitPos (set_operand bodyStart) code3;
                code5 = patch splitPos (set_charset (jumpPos + 1)) code4
            in patch jumpPos (set_operand splitPos) code5)
         else
           (let code0 = compileNode child code;
                splitPos = length code0;
                code1 = code0 @ [SPLIT 0 0];
                repeatStart = splitPos + 1;
                code2 = compileNode child code1;
                jumpPos = length code2;
                code3 = code2 @ [JUMP 0];
                code4 = patch splitPos (set_operand repeatStart) code3;
                code5 = patch splitPos (set_charset (jumpPos + 1)) code4
            in patch jumpPos (set_operand splitPos) code5))
      else if mx = 1 \<and> mn = 0 then
        (let splitPos = length code;
             code1 = code @ [SPLIT 0 0];
             bodyStart = splitPos + 1;
             code2 = compileNode child code1;
             code3 = patch splitPos (set_operand bodyStart) code2
         in patch splitPos (set_charset (length code3)) code3)
      else if mx = 1 then compileNode child code
      else compileNode_times (unat mn) child code)"
| "compileNode (Group child idx) code =
     (let groupIdx = group_u32 idx;
          code1 = code @ [SAVE ((groupIdx * 2) mod 2 ^ 32)];
          code2 = compileNode child code1
      in code2 @ [SAVE ((groupIdx * 2 + 1) mod 2 ^ 32)])"
| "compileNode (Backref idx) code = code @ [BACKREF_op (group_u32 idx)]"
| "compileNode_times 0 child code = code"
| "compileNode_times (Suc k) child code = compileNode_times k child (compileNode child code)"
  by pat_completeness auto
termination
  by (relation "inv_image (less_than <*lex*> less_than)
        (\<lambda>x. case x of Inl (node, code) \<Rightarrow> (2 * size node, 0)
                      | Inr (k, node, code) \<Rightarrow> (2 * size node + 1, k))") auto

definition compile :: "ASTNode \<Rightarrow> int \<Rightarrow> Instruction list" where
  "compile root numCaptures = compileNode root [] @ [MATCH]"

section \<open>The regex handle\<close>

record Regex =
  pattern :: string
  instructions :: "Instruction list"
  compiled :: bool
  numCaptures :: int

text \<open>The constructor \<^verbatim>\<open>Regex(pattern)\<close> with \<^verbatim>\<open>Regex::compile\<close>: the handle, or the
  \<^verbatim>\<open>RegexError\<close> that the constructor rethrows.\<close>

definition Regex_compile :: "string \<Rightarrow> (RegexError + Regex) option" where
  "Regex_compile pat =
     (case tokenize pat of
        Inl e \<Rightarrow> Some (Inl e)
      | Inr tokens \<Rightarrow>
          (case parse tokens of
             None \<Rightarrow> None
           | Some (Inl e) \<Rightarrow> Some (Inl e)
           | Some (Inr (ast, ncap)) \<Rightarrow>
               Some (Inr \<lparr>pattern = pat, instructions = compile ast ncap,
                          compiled = True, numCaptures = ncap\<rparr>)))"

section \<open>Virtual machine\<close>

text \<open>
  What a call of the VM can end in: \<^verbatim>\<open>false\<close>, \<^verbatim>\<open>true\<close> with the result it wrote, or
  an exception. \<open>OutOfRange\<close> is the \<^verbatim>\<open>std::out_of_range\<close> of \<^verbatim>\<open>std::string::substr\<close>
  and \<^verbatim>\<open>std::string::replace\<close>; \<open>OutOfBounds\<close> stands for a write past the end of
  \<^verbatim>\<open>captures_\<close>, which the source does not check. A run that never leaves the loop
  (in the source, until memory for the backtrack stack is exhausted) has no outcome.
\<close>

datatype vm_error = OutOfRange | OutOfBounds

datatype outcome = NoMatch | Matched MatchResult | Raised vm_error

record BacktrackPoint =
  bp_pc :: nat
  bp_textPos :: nat
  savedCaptures :: "nat list"

definition substr :: "string \<Rightarrow> nat \<Rightarrow> nat \<Rightarrow> vm_error + string" where
  "substr s pos n = (if pos > length s then Inl OutOfRange else Inr (take n (drop pos s)))"

text \<open>Subtraction of \<^verbatim>\<open>size_t\<close> values wraps around.\<close>

definition size_sub :: "nat \<Rightarrow> nat \<Rightarrow> nat" where
  "size_sub a b = (a + 2 ^ 64 - b mod 2 ^ 64) mod 2 ^ 64"

subsection \<open>Building the result\<close>

text \<open>The inner loop of the containment filter over \<open>j\<close>: whether it sets
  \<^verbatim>\<open>is_contained[i]\<close> before it ends.\<close>

function find_container :: "nat list \<Rightarrow> nat \<Rightarrow> bool list \<Rightarrow> nat \<Rightarrow> nat \<Rightarrow> bool" where
  "find_container caps captureCount is_contained i j =
     (if j < captureCount then
        (if i = j \<or> is_contained ! j then find_container caps captureCount is_contained i (j + 1)
         else
           (let i_start = caps ! (i * 2); i_end = caps ! (i * 2 + 1);
                j_start = caps ! (j * 2); j_end = caps ! (j * 2 + 1)
            in if j_start = npos \<or> j_end = npos
                 then find_container caps captureCount is_contained i (j + 1)
               else if j_start \<le> i_start \<and> i_end \<le> j_end \<and> (j_start < i_start \<or> i_end < j_end)
                 then True
               else find_container caps captureCount is_contained i (j + 1)))
      else False)"
  by pat_completeness auto
termination
  by (relation "measure (\<lambda>(caps, captureCount, is_contained, i, j). captureCount - j)") auto

declare find_container.simps [simp del]

text \<open>The outer loop over \<open>i\<close>, with \<^verbatim>\<open>is_contained\<close> as its state.\<close>

function mark_contained :: "nat list \<Rightarrow> nat \<Rightarrow> bool list \<Rightarrow> nat \<Rightarrow> bool list" where
  "mark_contained caps captureCount is_contained i =
     (if i < captureCount then
        (let i_start = caps ! (i * 2); i_end = caps ! (i * 2 + 1)
         in if i_start = npos \<or> i_end = npos
              then mark_contained caps captureCount is_contained (i + 1)
            else if find_container caps captureCount is_contained i 1
              then mark_contained caps captureCount (is_contained[i := True]) (i + 1)
            else mark_contained caps captureCount is_contained (i + 1))
      else is_contained)"
  by pat_completeness auto
termination
  by (relation "measure (\<lambda>(caps, captureCount, is_contained, i). captureCount - i)") auto

declare mark_contained.simps [simp del]

text \<open>The loop that pushes the groups that are not contained onto \<^verbatim>\<open>result.captures\<close>.\<close>

function collect_captures ::
  "string \<Rightarrow> nat list \<Rightarrow> nat \<Rightarrow> bool list \<Rightarrow> nat \<Rightarrow> Match list \<Rightarrow> vm_error + Match list" where
  "collect_captures text caps captureCount is_contained i acc =
     (if i < captureCount then
        (if \<not> is_contained ! i then
           (let start = caps ! (i * 2); endp = caps ! (i * 2 + 1)
            in if start \<noteq> npos \<and> endp \<noteq> npos \<and> endp > start then
                 (case substr text start (endp - start) of
                    Inl e \<Rightarrow> Inl e
                  | Inr sub \<Rightarrow>
                      collect_captures text caps captureCount is_contained (i + 1)
                        (acc @ [\<lparr>m_start = start, m_end = endp, captured = sub\<rparr>]))
               else collect_captures text caps captureCount is_contained (i + 1)
                      (acc @ [\<lparr>m_start = npos, m_end = npos, captured = []\<rparr>]))
         else collect_captures text caps captureCount is_contained (i + 1) acc)
      else Inr acc)"
  by pat_completeness auto
termination
  by (relation "measure (\<lambda>(text, caps, captureCount, is_contained, i, acc). captureCount - i)")
     auto

declare collect_captures.simps [simp del]

definition buildResult :: "string \<Rightarrow> nat \<Rightarrow> nat list \<Rightarrow> vm_error + MatchResult" where
  "buildResult text captureCount caps =
     (let len = size_sub (caps ! 1) (caps ! 0)
      in case substr text (caps ! 0) len of
           Inl e \<Rightarrow> Inl e
         | Inr mt \<Rightarrow>
             (let is_contained = mark_contained caps captureCount (replicate captureCount False) 1
              in case collect_captures text caps captureCount is_contained 1 [] of
                   Inl e \<Rightarrow> Inl e
                 | Inr cs \<Rightarrow>
                     Inr \<lparr>matched = True, position = caps ! 0, matched_text = mt,
                          captures = cs\<rparr>))"

subsection \<open>Execution\<close>

text \<open>One pass through the \<^verbatim>\<open>switch\<close> of \<^verbatim>\<open>executeAt\<close>: the next state, \<^verbatim>\<open>goto fail\<close>,
  the \<^verbatim>\<open>MATCH\<close> that ends the loop, or an unchecked write.\<close>

datatype step_result =
  Continue nat nat "nat list" "BacktrackPoint list"
| Fail
| Accept "nat list"
| Abort vm_error

definition advance_if ::
  "bool \<Rightarrow> nat \<Rightarrow> nat \<Rightarrow> nat list \<Rightarrow> BacktrackPoint list \<Rightarrow> step_result" where
  "advance_if b pc textPos caps stack =
     (if b then Continue (pc + 1) (textPos + 1) caps stack else Fail)"

fun vm_step ::
  "Instruction \<Rightarrow> string \<Rightarrow> nat \<Rightarrow> nat \<Rightarrow> nat list \<Rightarrow> BacktrackPoint list \<Rightarrow> step_result" where
  "vm_step (CHAR_op ch) text pc textPos caps stack =
     advance_if (textPos < length text \<and> text ! textPos = ch) pc textPos caps stack"
| "vm_step ANY text pc textPos caps stack =
     advance_if (textPos < length text) pc textPos caps stack"
| "vm_step (RANGE_op lo hi) text pc textPos caps stack =
     advance_if (textPos < length text \<and> schar (text ! textPos) \<ge> schar lo \<and>
                 schar (text ! textPos) \<le> schar hi) pc textPos caps stack"
| "vm_step (CLASS low high) text pc textPos caps stack =
     advance_if (textPos < length text \<and> inClassExt low high (text ! textPos))
       pc textPos caps stack"
| "vm_step (NOT_CLASS low high) text pc textPos caps stack =
     advance_if (textPos < length text \<and> \<not> inClassExt low high (text ! textPos))
       pc textPos caps stack"
| "vm_step (CLASS_PRED class_type) text pc textPos caps stack =
     (let negated = (class_type AND 0x10 \<noteq> 0);
          base_type = class_type AND 0x0F;
          c = (if textPos < length text then text ! textPos else CHR 0x00);
          pred_matched =
            (if base_type = CLASS_DIGIT then textPos < length text \<and> isDigit c
             else if base_type = CLASS_WORD then textPos < length text \<and> isWordChar c
             else if base_type = CLASS_SPACE then textPos < length text \<and> isSpace c
             else False)
      in advance_if (if negated then \<not> pred_matched else pred_matched) pc textPos caps stack)"
| "vm_step (JUMP target) text pc textPos caps stack = Continue target textPos caps stack"
| "vm_step (SPLIT target1 target2) text pc textPos caps stack =
     Continue target1 textPos caps
       (\<lparr>bp_pc = target2, bp_textPos = textPos, savedCaptures = caps\<rparr> # stack)"
| "vm_step (SAVE operand) text pc textPos caps stack =
     (let g = operand mod 65536; next = operand div 65536
      in if g < length caps
         then Continue (if next > 0 then next else pc + 1) textPos (caps[g := textPos]) stack
         else Abort OutOfBounds)"
| "vm_step MATCH text pc textPos caps stack =
     (if 1 < length caps then Accept (caps[1 := textPos]) else Abort OutOfBounds)"
| "vm_step ANCHOR_START text pc textPos caps stack =
     (if textPos = 0 then Continue (pc + 1) textPos caps stack else Fail)"
| "vm_step ANCHOR_END text pc textPos caps stack =
     (if textPos = length text then Continue (pc + 1) textPos caps stack else Fail)"
| "vm_step (BACKREF_op operand) text pc textPos caps stack = Fail"

text \<open>The loop of \<^verbatim>\<open>executeAt\<close>. Leaving the inner loop without a match (also by running
  past the last instruction) and \<^verbatim>\<open>goto fail\<close> both reach the label \<^verbatim>\<open>fail\<close>, which
  returns \<^verbatim>\<open>false\<close> on an empty backtrack stack and resumes from its top otherwise.\<close>

partial_function (option) vm_loop ::
  "Instruction list \<Rightarrow> nat \<Rightarrow> string \<Rightarrow> nat \<Rightarrow> nat \<Rightarrow> nat list \<Rightarrow> BacktrackPoint list
     \<Rightarrow> outcome option" where
  "vm_loop prog captureCount text pc textPos caps stack =
     (case (if pc < length prog then vm_step (prog ! pc) text pc textPos caps stack else Fail) of
        Continue pc' textPos' caps' stack' \<Rightarrow>
          vm_loop prog captureCount text pc' textPos' caps' stack'
      | Accept caps' \<Rightarrow>
          Some (case buildResult text captureCount caps' of
                  Inl e \<Rightarrow> Raised e
                | Inr r \<Rightarrow> Matched r)
      | Abort e \<Rightarrow> Some (Raised e)
      | Fail \<Rightarrow>
          (case stack of
             [] \<Rightarrow> Some NoMatch
           | bp # rest \<Rightarrow>
               vm_loop prog captureCount text (bp_pc bp) (bp_textPos bp) (savedCaptures bp) rest))"

declare vm_loop.simps [code]

definition executeAt :: "Instruction list \<Rightarrow> nat \<Rightarrow> string \<Rightarrow> nat \<Rightarrow> outcome option" where
  "executeAt prog captureCount text pos =
     (let caps = replicate (captureCount * 2) npos
      in if 0 < length caps then vm_loop prog captureCount text 0 pos (caps[0 := pos]) []
         else Some (Raised OutOfBounds))"

text \<open>\<^verbatim>\<open>VM::search\<close>. After a call that found nothing, \<^verbatim>\<open>tempResult\<close> holds an empty
  \<^verbatim>\<open>matched_text\<close>, so \<^verbatim>\<open>prevMatchLen\<close> becomes 0 whatever its \<^verbatim>\<open>matched\<close> field
  holds.\<close>

function VM_search_loop ::
  "Instruction list \<Rightarrow> nat \<Rightarrow> string \<Rightarrow> nat \<Rightarrow> nat \<Rightarrow> outcome option" where
  "VM_search_loop prog captureCount text pos prevMatchLen =
     (if pos \<le> length text then
        (case executeAt prog captureCount text pos of
           None \<Rightarrow> None
         | Some (Raised e) \<Rightarrow> Some (Raised e)
         | Some (Matched tempResult) \<Rightarrow>
             (let matchLen = result_length tempResult
              in if matchLen = 0 \<and> matchLen = prevMatchLen \<and> pos < length text then
                   VM_search_loop prog captureCount text (pos + 1)
                     (if pos + 1 < length text \<and> matched tempResult
                      then result_length tempResult else 0)
                 else Some (Matched tempResult))
         | Some NoMatch \<Rightarrow> VM_search_loop prog captureCount text (pos + 1) 0)
      else Some NoMatch)"
  by pat_completeness auto
termination
  by (relation "measure (\<lambda>(prog, captureCount, text, pos, prevMatchLen). Suc (length text) - pos)")
     auto

declare VM_search_loop.simps [simp del]

definition VM_search :: "Instruction list \<Rightarrow> nat \<Rightarrow> string \<Rightarrow> nat \<Rightarrow> outcome option" where
  "VM_search prog captureCount text start = VM_search_loop prog captureCount text start 0"

section \<open>Operations of the handle\<close>

text \<open>The VM of a handle is built with \<^verbatim>\<open>numCaptures_ + 1\<close> capture groups.\<close>

definition captureCount_of :: "Regex \<Rightarrow> nat" where
  "captureCount_of rx = nat (numCaptures rx + 1)"

definition Regex_match :: "Regex \<Rightarrow> string \<Rightarrow> nat \<Rightarrow> outcome option" where
  "Regex_match rx text start =
     (if \<not> compiled rx then Some NoMatch
      else executeAt (instructions rx) (captureCount_of rx) text start)"

definition Regex_search :: "Regex \<Rightarrow> string \<Rightarrow> nat \<Rightarrow> outcome option" where
  "Regex_search rx text start =
     (if \<not> compiled rx then Some NoMatch
      else VM_search (instructions rx) (captureCount_of rx) text start)"

partial_function (option) searchAll_loop ::
  "Regex \<Rightarrow> string \<Rightarrow> nat \<Rightarrow> nat \<Rightarrow> MatchResult list \<Rightarrow> (vm_error + MatchResult list) option" where
  "searchAll_loop rx text pos prevMatchLen results =
     (if pos \<le> length text then
        (case executeAt (instructions rx) (captureCount_of rx) text pos of
           None \<Rightarrow> None
         | Some (Raised e) \<Rightarrow> Some (Inl e)
         | Some (Matched result) \<Rightarrow>
             (let matchLen = result_length result
              in if matchLen = 0 \<and> matchLen = prevMatchLen \<and> pos < length text
                 then searchAll_loop rx text (pos + 1) prevMatchLen results
                 else searchAll_loop rx text
                        (position result +
                           (if result_length result > 0 then result_length result else 1))
                        matchLen (results @ [result]))
         | Some NoMatch \<Rightarrow> searchAll_loop rx text (pos + 1) 0 results)
      else Some (Inr results))"

declare searchAll_loop.simps [code]

definition searchAll :: "Regex \<Rightarrow> string \<Rightarrow> (vm_error + MatchResult list) option" where
  "searchAll rx text =
     (if \<not> compiled rx then Some (Inr []) else searchAll_loop rx text 0 0 [])"

fun expandReplacement :: "string \<Rightarrow> MatchResult \<Rightarrow> string" where
  "expandReplacement [] m = []"
| "expandReplacement [c] m = [c]"
| "expandReplacement (c # next # rest) m =
     (if c = backslash then
        (if isDigit next
         then group m (schar next - schar CHR ''0'') @ expandReplacement rest m
         else (if next = CHR ''n'' then CHR 0x0A
               else if next = CHR ''r'' then CHR 0x0D
               else if next = CHR ''t'' then CHR 0x09
               else next) # expandReplacement rest m)
      else if c = CHR ''$'' then
        (if isDigit next
         then group m (schar next - schar CHR ''0'') @ expandReplacement rest m
         else CHR ''$'' # next # expandReplacement rest m)
      else c # expandReplacement (next # rest) m)"

text \<open>\<^verbatim>\<open>std::string::replace(pos, n, str)\<close>.\<close>

definition string_replace :: "string \<Rightarrow> nat \<Rightarrow> nat \<Rightarrow> string \<Rightarrow> vm_error + string" where
  "string_replace s pos n r =
     (if pos > length s then Inl OutOfRange else Inr (take pos s @ r @ drop (pos + n) s))"

partial_function (option) replace_loop ::
  "Regex \<Rightarrow> string \<Rightarrow> string \<Rightarrow> nat \<Rightarrow> (vm_error + string) option" where
  "replace_loop rx replacement result pos =
     (if pos < length result then
        (case Regex_search rx result pos of
           None \<Rightarrow> None
         | Some (Raised e) \<Rightarrow> Some (Inl e)
         | Some (Matched m) \<Rightarrow>
             (let repl = expandReplacement replacement m
              in case string_replace result (position m) (result_length m) repl of
                   Inl e \<Rightarrow> Some (Inl e)
                 | Inr result' \<Rightarrow> replace_loop rx replacement result' (position m + length repl))
         | Some NoMatch \<Rightarrow> Some (Inr result))
      else Some (Inr result))"

declare replace_loop.simps [code]

definition replace :: "Regex \<Rightarrow> string \<Rightarrow> string \<Rightarrow> bool \<Rightarrow> (vm_error + string) option" where
  "replace rx text replacement all =
     (if \<not> compiled rx then Some (Inr text)
      else if all then replace_loop rx replacement text 0
      else
        (case Regex_search rx text 0 of
           None \<Rightarrow> None
         | Some (Raised e) \<Rightarrow> Some (Inl e)
         | Some (Matched m) \<Rightarrow>
             (case string_replace text (position m) (result_length m)
                     (expandReplacement replacement m) of
                Inl e \<Rightarrow> Some (Inl e)
              | Inr result \<Rightarrow> Some (Inr result))
         | Some NoMatch \<Rightarrow> Some (Inr text)))"

section \<open>The lexer: escapes\<close>

lemma switch_type_backslash: "switch_type backslash = None"
  by (simp add: switch_type_def backslash_def)

lemma nextToken_escape:
  "nextToken pos (backslash # e # rest) = Inr (Token ESCAPE e pos, Suc (Suc pos), rest)"
  by (simp add: switch_type_backslash)

lemma tokenize_from_escape:
  "tokenize_from pos (backslash # e # rest) =
     (case tokenize_from (Suc (Suc pos)) rest of
        Inl err \<Rightarrow> Inl err
      | Inr toks \<Rightarrow> Inr (Token ESCAPE e pos # toks))"
  by (subst tokenize_from.simps) (simp add: switch_type_backslash)

lemma tokenize_from_backslashes:
  "tokenize_from pos (replicate (2 * k + 1) backslash) =
     Inl (RegexError ''Incomplete escape sequence'' (pos + 2 * k))"
proof (induction k arbitrary: pos)
  case 0
  show ?case
    by (subst tokenize_from.simps) (simp add: switch_type_backslash)
next
  case (Suc k)
  have "replicate (2 * Suc k + 1) backslash =
          backslash # backslash # replicate (2 * k + 1) backslash"
    by simp
  then have "tokenize_from pos (replicate (2 * Suc k + 1) backslash) =
      (case tokenize_from (Suc (Suc pos)) (replicate (2 * k + 1) backslash) of
         Inl err \<Rightarrow> Inl err
       | Inr toks \<Rightarrow> Inr (Token ESCAPE backslash pos # toks))"
    by (simp only: tokenize_from_escape)
  then show ?case
    using Suc.IH [of "Suc (Suc pos)"] by simp
qed

lemma switch_type_space: "switch_type (CHR '' '') = None"
  by (simp add: switch_type_def)

lemma switch_type_tab: "switch_type (CHR 0x09) = None"
  by (simp add: switch_type_def)

lemma nextToken_skip:
  "c = CHR '' '' \<or> c = CHR 0x09 \<Longrightarrow> nextToken pos (c # rest) = nextToken (Suc pos) rest"
  by (erule disjE) (simp_all add: switch_type_space switch_type_tab backslash_def)

lemma tokenize_from_skip:
  assumes "c = CHR '' '' \<or> c = CHR 0x09" and "rest \<noteq> []"
  shows "tokenize_from pos (c # rest) = tokenize_from (Suc pos) rest"
proof -
  have "tokenize_from pos (c # rest) =
          (case nextToken pos (c # rest) of
              Inl e \<Rightarrow> Inl e
            | Inr (tok, pos', cs') \<Rightarrow>
                (case tokenize_from pos' cs' of
                   Inl e \<Rightarrow> Inl e
                 | Inr toks \<Rightarrow> Inr (tok # toks)))"
    by (subst tokenize_from.simps) (simp del: nextToken.simps)
  also have "\<dots> = (case nextToken (Suc pos) rest of
              Inl e \<Rightarrow> Inl e
            | Inr (tok, pos', cs') \<Rightarrow>
                (case tokenize_from pos' cs' of
                   Inl e \<Rightarrow> Inl e
                 | Inr toks \<Rightarrow> Inr (tok # toks)))"
    by (simp only: nextToken_skip [OF assms(1)])
  also have "\<dots> = tokenize_from (Suc pos) rest"
    using assms(2) by (subst (2) tokenize_from.simps) (simp del: nextToken.simps)
  finally show ?thesis .
qed

lemma tokenize_from_dangling:
  "pre = [] \<or> last pre \<noteq> backslash \<Longrightarrow>
   tokenize_from pos (pre @ replicate (2 * k + 1) backslash) =
     Inl (RegexError ''Incomplete escape sequence'' (pos + length pre + 2 * k))"
proof (induction pre arbitrary: pos rule: length_induct)
  case (1 pre)
  let ?suf = "replicate (2 * k + 1) backslash"
  show ?case
  proof (cases pre)
    case Nil
    then show ?thesis using tokenize_from_backslashes [of pos k] by simp
  next
    case (Cons c cs)
    with "1.prems" have lastc: "last (c # cs) \<noteq> backslash" by simp
    show ?thesis
    proof (cases "c = backslash")
      case True
      with lastc obtain e cs' where cs: "cs = e # cs'"
        by (cases cs) auto
      from lastc cs have "cs' = [] \<or> last cs' \<noteq> backslash"
        by (auto split: if_splits)
      moreover have "length cs' < length pre"
        using Cons cs by simp
      ultimately have "tokenize_from (Suc (Suc pos)) (cs' @ ?suf) =
          Inl (RegexError ''Incomplete escape sequence'' (Suc (Suc pos) + length cs' + 2 * k))"
        using "1.IH" by blast
      then show ?thesis
        using Cons cs True by (simp add: tokenize_from_escape)
    next
      case False
      from lastc have cs_ok: "cs = [] \<or> last cs \<noteq> backslash"
        by (auto split: if_splits)
      have "length cs < length pre"
        using Cons by simp
      with cs_ok have ih: "tokenize_from (Suc pos) (cs @ ?suf) =
          Inl (RegexError ''Incomplete escape sequence'' (Suc pos + length cs + 2 * k))"
        using "1.IH" by blast
      show ?thesis
      proof (cases "c = CHR '' '' \<or> c = CHR 0x09")
        case True
        then have "tokenize_from pos (c # cs @ ?suf) = tokenize_from (Suc pos) (cs @ ?suf)"
          by (intro tokenize_from_skip) auto
        with ih Cons show ?thesis by simp
      next
        case ws: False
        have "\<exists>tok. nextToken pos (c # cs @ ?suf) = Inr (tok, Suc pos, cs @ ?suf)"
          using False ws by (auto split: option.splits)
        then obtain tok where "nextToken pos (c # cs @ ?suf) = Inr (tok, Suc pos, cs @ ?suf)" ..
        then have "tokenize_from pos (c # cs @ ?suf) =
            (case tokenize_from (Suc pos) (cs @ ?suf) of
               Inl err \<Rightarrow> Inl err | Inr toks \<Rightarrow> Inr (tok # toks))"
          by (subst tokenize_from.simps) simp
        with ih Cons show ?thesis by simp
      qed
    qed
  qed
qed

text \<open>
  Claim C9. A pattern whose last byte is a dangling backslash is one that ends in an odd
  number of backslashes: \<open>pre\<close> followed by \<open>2k + 1\<close> backslashes, where \<open>pre\<close> is empty
  or ends in another byte. Compiling it fails with ``Incomplete escape sequence'', at the
  offset of the last backslash. A backslash followed by a byte \<open>e\<close> is consumed together
  with \<open>e\<close> and gives an \<^verbatim>\<open>ESCAPE\<close> token with value \<open>e\<close> at the offset of the
  backslash.
\<close>

theorem dangling_backslash_incomplete_escape:
  "(pre = [] \<or> last pre \<noteq> backslash \<longrightarrow>
      Regex_compile (pre @ replicate (2 * k + 1) backslash) =
        Some (Inl (RegexError ''Incomplete escape sequence'' (length pre + 2 * k))))
   \<and> nextToken pos (backslash # e # rest) = Inr (Token ESCAPE e pos, pos + 2, rest)
   \<and> tokenize_from pos (backslash # e # rest) =
        (case tokenize_from (pos + 2) rest of
           Inl err \<Rightarrow> Inl err
         | Inr toks \<Rightarrow> Inr (Token ESCAPE e pos # toks))"
  using tokenize_from_dangling [of pre 0 k]
  by (simp add: Regex_compile_def tokenize_def nextToken_escape tokenize_from_escape
        switch_type_backslash del: replicate.simps)

text \<open>The pattern of the two bytes \<^verbatim>\<open>ab\<close> and three backslashes: the error is at offset 4.\<close>

theorem dangling_backslash_witness:
  "(''ab'' = [] \<or> last ''ab'' \<noteq> backslash)
   \<and> Regex_compile (''ab'' @ replicate (2 * 1 + 1) backslash) =
        Some (Inl (RegexError ''Incomplete escape sequence'' 4))"
  using dangling_backslash_incomplete_escape [of "''ab''" 1, THEN conjunct1]
  by (simp add: backslash_def)

section \<open>The parser: escapes and groups\<close>

lemma parseAtom_escape:
  "parseAtom (Suc n) (Token ESCAPE c p # ts) cap =
     Some (Inr (parseEscape (Token ESCAPE c p), ts, cap))"
  by (simp add: consume_def parseAtom_switch_def)

lemma vm_loop_fail:
  assumes "pc \<ge> length prog \<or> vm_step (prog ! pc) text pc textPos caps stack = Fail"
  shows "vm_loop prog captureCount text pc textPos caps stack =
     (case stack of
        [] \<Rightarrow> Some NoMatch
      | bp # rest \<Rightarrow>
          vm_loop prog captureCount text (bp_pc bp) (bp_textPos bp) (savedCaptures bp) rest)"
  using assms by (subst vm_loop.simps) auto

lemma vm_loop_continue:
  assumes "pc < length prog"
    and "vm_step (prog ! pc) text pc textPos caps stack = Continue pc' textPos' caps' stack'"
  shows "vm_loop prog captureCount text pc textPos caps stack =
     vm_loop prog captureCount text pc' textPos' caps' stack'"
  using assms by (subst vm_loop.simps) simp

lemma vm_loop_accept:
  assumes "pc < length prog"
    and "vm_step (prog ! pc) text pc textPos caps stack = Accept caps'"
  shows "vm_loop prog captureCount text pc textPos caps stack =
     Some (case buildResult text captureCount caps' of Inl e \<Rightarrow> Raised e | Inr r \<Rightarrow> Matched r)"
  using assms by (subst vm_loop.simps) simp

lemma vm_loop_abort:
  assumes "pc < length prog"
    and "vm_step (prog ! pc) text pc textPos caps stack = Abort e"
  shows "vm_loop prog captureCount text pc textPos caps stack = Some (Raised e)"
  using assms by (subst vm_loop.simps) simp

lemma buildResult_no_groups:
  "buildResult text (Suc 0) caps =
     (case substr text (caps ! 0) (size_sub (caps ! 1) (caps ! 0)) of
        Inl e \<Rightarrow> Inl e
      | Inr mt \<Rightarrow> Inr \<lparr>matched = True, position = caps ! 0, matched_text = mt, captures = []\<rparr>)"
  by (simp add: buildResult_def mark_contained.simps collect_captures.simps Let_def
        split: sum.splits)

lemma size_sub_le: "b \<le> a \<Longrightarrow> size_sub a b = (a - b) mod 2 ^ 64"
proof -
  assume le: "b \<le> a"
  define M :: nat where "M = 2 ^ 64"
  define r where "r = b mod M"
  have "r \<le> b"
    by (simp add: r_def)
  with le have "a + M - r = (a - b) + (b - r) + M"
    by linarith
  then have "a + M - b mod M = (a - b) + (b - b mod M) + M"
    by (simp only: r_def)
  also have "\<dots> = (a - b) + (b div M + 1) * M"
    by (simp add: minus_mod_eq_mult_div algebra_simps)
  finally have "(a + M - b mod M) mod M = (a - b) mod M"
    by (simp only: mod_mult_self1)
  then show ?thesis
    by (simp add: size_sub_def M_def)
qed

lemma size_sub_Suc: "size_sub (Suc pos) pos = 1"
  by (simp add: size_sub_le)

lemma executeAt_char_b:
  "executeAt [CHAR_op CHR ''b'', MATCH] 1 text pos =
     Some (if pos < length text \<and> text ! pos = CHR ''b''
           then Matched \<lparr>matched = True, position = pos, matched_text = ''b'', captures = []\<rparr>
           else NoMatch)"
proof (cases "pos < length text \<and> text ! pos = CHR ''b''")
  case True
  have "vm_loop [CHAR_op CHR ''b'', MATCH] 1 text 0 pos [pos, npos] [] =
        vm_loop [CHAR_op CHR ''b'', MATCH] 1 text 1 (pos + 1) [pos, npos] []"
    using True by (intro vm_loop_continue) (simp_all add: advance_if_def)
  also have "\<dots> = Some (case buildResult text 1 [pos, pos + 1] of
                         Inl e \<Rightarrow> Raised e | Inr r \<Rightarrow> Matched r)"
    by (intro vm_loop_accept) simp_all
  finally have run: "vm_loop [CHAR_op CHR ''b'', MATCH] 1 text 0 pos [pos, npos] [] =
      Some (case buildResult text 1 [pos, pos + 1] of Inl e \<Rightarrow> Raised e | Inr r \<Rightarrow> Matched r)" .
  from True have "take 1 (drop pos text) = ''b''"
    by (simp flip: Cons_nth_drop_Suc)
  then have "buildResult text 1 [pos, pos + 1] =
      Inr \<lparr>matched = True, position = pos, matched_text = ''b'', captures = []\<rparr>"
    using True by (simp add: buildResult_no_groups substr_def size_sub_Suc)
  with run True show ?thesis
    by (simp add: executeAt_def numeral_2_eq_2)
next
  case False
  have "vm_loop [CHAR_op CHR ''b'', MATCH] 1 text 0 pos [pos, npos] [] = Some NoMatch"
    using False by (subst vm_loop_fail) (auto simp: advance_if_def)
  then show ?thesis
    using False by (auto simp: executeAt_def numeral_2_eq_2)
qed

lemma compile_backslash_B:
  "Regex_compile [backslash, CHR ''B''] =
     Some (Inr \<lparr>pattern = [backslash, CHR ''B''], instructions = [CHAR_op CHR ''b'', MATCH],
                compiled = True, numCaptures = 0\<rparr>)"
  by code_simp

lemma compile_backslash_b:
  "Regex_compile [backslash, CHR ''b''] =
     Some (Inr \<lparr>pattern = [backslash, CHR ''b''], instructions = [CHAR_op CHR ''b'', MATCH],
                compiled = True, numCaptures = 0\<rparr>)"
  by code_simp

text \<open>
  Claim C10. Outside a bracket expression the parser turns the escapes \<^verbatim>\<open>\b\<close> and
  \<^verbatim>\<open>\B\<close> into the literal \<open>b\<close>, whatever follows and whatever the capture
  counter is; the literal compiles to one \<^verbatim>\<open>CHAR 'b'\<close>. The pattern \<^verbatim>\<open>\B\<close> (and
  \<^verbatim>\<open>\b\<close>) compiles to \<^verbatim>\<open>CHAR 'b'; MATCH\<close>, and running that program at an offset
  matches exactly when the byte at the offset is \<open>b\<close>, with the one byte as the match.
\<close>

theorem word_boundary_escapes_are_literal_b:
  "parseAtom (Suc n) (Token ESCAPE CHR ''b'' p # ts) cap = Some (Inr (Literal CHR ''b'', ts, cap))
   \<and> parseAtom (Suc n) (Token ESCAPE CHR ''B'' p # ts) cap = Some (Inr (Literal CHR ''b'', ts, cap))
   \<and> compileNode (Literal CHR ''b'') code = code @ [CHAR_op CHR ''b'']
   \<and> Regex_compile [backslash, CHR ''B''] =
       Some (Inr \<lparr>pattern = [backslash, CHR ''B''], instructions = [CHAR_op CHR ''b'', MATCH],
                  compiled = True, numCaptures = 0\<rparr>)
   \<and> Regex_compile [backslash, CHR ''b''] =
       Some (Inr \<lparr>pattern = [backslash, CHR ''b''], instructions = [CHAR_op CHR ''b'', MATCH],
                  compiled = True, numCaptures = 0\<rparr>)
   \<and> executeAt [CHAR_op CHR ''b'', MATCH] 1 text pos =
       Some (if pos < length text \<and> text ! pos = CHR ''b''
             then Matched \<lparr>matched = True, position = pos, matched_text = ''b'', captures = []\<rparr>
             else NoMatch)"
  by (simp only: parseAtom_escape compile_backslash_B compile_backslash_b executeAt_char_b
        compileNode.simps)
     (simp add: parseEscape_def)

lemma parseAtom_group_question:
  "parseAtom (Suc (Suc (Suc (Suc (Suc n))))) (Token LPAREN c p # Token QUESTION c' q # ts) cap =
     Some (Inl (RegexError ''Unexpected token'' q))"
  by (simp add: consume_def peek_def parseAtom_switch_def closeGroup_def)

lemma compile_lookahead_positive:
  "Regex_compile ''(?=a)'' = Some (Inl (RegexError ''Unexpected token'' 1))"
  by code_simp

lemma compile_lookahead_negative:
  "Regex_compile ''(?!a)'' = Some (Inl (RegexError ''Unexpected token'' 1))"
  by code_simp

lemma compile_plain_a:
  "Regex_compile ''a'' =
     Some (Inr \<lparr>pattern = ''a'', instructions = [CHAR_op CHR ''a'', MATCH],
                compiled = True, numCaptures = 0\<rparr>)"
  by code_simp

lemma nextToken_question:
  "nextToken pos (CHR ''?'' # cs) = Inr (Token QUESTION CHR ''?'' pos, Suc pos, cs)"
  by (simp add: switch_type_def)

text \<open>
  Claim C1 fails on the code. The lexer turns every \<^verbatim>\<open>?\<close> into a \<^verbatim>\<open>QUESTION\<close>
  token, and \<^verbatim>\<open>parseAtom\<close> looks for a \<^verbatim>\<open>LITERAL\<close> token after the parenthesis: a
  group that starts with \<^verbatim>\<open>(?\<close> is parsed as a capturing group whose first atom is the
  \<^verbatim>\<open>QUESTION\<close> token, which is an ``Unexpected token'' at the offset of the \<^verbatim>\<open>?\<close>.
  The patterns \<^verbatim>\<open>(?=a)\<close> and \<^verbatim>\<open>(?!a)\<close> do not compile, while \<^verbatim>\<open>a\<close> does.
\<close>

theorem lookaround_group_rejected:
  "nextToken pos (CHR ''?'' # cs) = Inr (Token QUESTION CHR ''?'' pos, Suc pos, cs)
   \<and> parseAtom (Suc (Suc (Suc (Suc (Suc n))))) (Token LPAREN c p # Token QUESTION c' q # ts) cap =
       Some (Inl (RegexError ''Unexpected token'' q))
   \<and> Regex_compile ''(?=a)'' = Some (Inl (RegexError ''Unexpected token'' 1))
   \<and> Regex_compile ''(?!a)'' = Some (Inl (RegexError ''Unexpected token'' 1))
   \<and> Regex_compile ''a'' =
       Some (Inr \<lparr>pattern = ''a'', instructions = [CHAR_op CHR ''a'', MATCH],
                  compiled = True, numCaptures = 0\<rparr>)"
  by (simp only: nextToken_question parseAtom_group_question compile_lookahead_positive
        compile_lookahead_negative compile_plain_a simp_thms)

section \<open>The parser: bracket expressions\<close>



section \<open>The compiler: bounded repetition\<close>







section \<open>The containment filter\<close>

definition span_set :: "nat list \<Rightarrow> nat \<Rightarrow> bool" where
  "span_set caps i \<longleftrightarrow> caps ! (i * 2) \<noteq> npos \<and> caps ! (i * 2 + 1) \<noteq> npos"

definition covers :: "nat list \<Rightarrow> nat \<Rightarrow> nat \<Rightarrow> bool" where
  "covers caps j i \<longleftrightarrow>
     caps ! (j * 2) \<le> caps ! (i * 2) \<and> caps ! (i * 2 + 1) \<le> caps ! (j * 2 + 1) \<and>
     (caps ! (j * 2) < caps ! (i * 2) \<or> caps ! (i * 2 + 1) < caps ! (j * 2 + 1))"

definition span_width :: "nat list \<Rightarrow> nat \<Rightarrow> int" where
  "span_width caps i = int (caps ! (i * 2 + 1)) - int (caps ! (i * 2))"

lemma covers_irrefl: "\<not> covers caps i i"
  by (simp add: covers_def)

lemma covers_trans: "covers caps k j \<Longrightarrow> covers caps j i \<Longrightarrow> covers caps k i"
  by (auto simp: covers_def)

lemma covers_width: "covers caps j i \<Longrightarrow> span_width caps i < span_width caps j"
  by (auto simp: covers_def span_width_def)

lemma ex_from_split: "(\<exists>j. j0 \<le> j \<and> P j) \<longleftrightarrow> P j0 \<or> (\<exists>j. Suc j0 \<le> j \<and> P j)"
proof
  assume "\<exists>j. j0 \<le> j \<and> P j"
  then obtain j where j: "j0 \<le> j" "P j" by blast
  show "P j0 \<or> (\<exists>j. Suc j0 \<le> j \<and> P j)"
  proof (cases "j = j0")
    case True
    with j show ?thesis by simp
  next
    case False
    with j have "Suc j0 \<le> j" by simp
    with j show ?thesis by blast
  qed
next
  assume "P j0 \<or> (\<exists>j. Suc j0 \<le> j \<and> P j)"
  then show "\<exists>j. j0 \<le> j \<and> P j"
    by (metis Suc_leD order_refl)
qed

lemma find_container_step:
  assumes "j < captureCount"
  shows "find_container caps captureCount is_contained i j \<longleftrightarrow>
     (j \<noteq> i \<and> \<not> is_contained ! j \<and> span_set caps j \<and> covers caps j i) \<or>
     find_container caps captureCount is_contained i (j + 1)"
proof (cases "i = j \<or> is_contained ! j")
  case True
  with assms show ?thesis
    by (subst find_container.simps) auto
next
  case nc: False
  show ?thesis
  proof (cases "span_set caps j")
    case False
    with assms nc show ?thesis
      by (subst find_container.simps) (auto simp: span_set_def)
  next
    case sp: True
    show ?thesis
    proof (cases "covers caps j i")
      case True
      with assms nc sp show ?thesis
        by (subst find_container.simps) (simp add: span_set_def covers_def)
    next
      case False
      with assms nc sp show ?thesis
        by (subst find_container.simps) (auto simp: span_set_def covers_def)
    qed
  qed
qed

lemma find_container_iff:
  "find_container caps captureCount is_contained i j0 \<longleftrightarrow>
     (\<exists>j. j0 \<le> j \<and> j < captureCount \<and> j \<noteq> i \<and> \<not> is_contained ! j \<and>
          span_set caps j \<and> covers caps j i)"
proof (induction "captureCount - j0" arbitrary: j0)
  case 0
  then have "\<not> j0 < captureCount" by simp
  then show ?case
    by (subst find_container.simps) auto
next
  case (Suc n)
  then have lt: "j0 < captureCount" and n: "n = captureCount - Suc j0"
    by simp_all
  from Suc.hyps(1) [OF n]
  have ih: "find_container caps captureCount is_contained i (j0 + 1) \<longleftrightarrow>
     (\<exists>j. Suc j0 \<le> j \<and> j < captureCount \<and> j \<noteq> i \<and> \<not> is_contained ! j \<and>
          span_set caps j \<and> covers caps j i)"
    by simp
  show ?case
    unfolding find_container_step [OF lt] ih
    using lt
    by (subst (2) ex_from_split) simp
qed


definition contained_by_some :: "nat list \<Rightarrow> nat \<Rightarrow> nat \<Rightarrow> bool" where
  "contained_by_some caps captureCount k \<longleftrightarrow>
     (\<exists>j. 1 \<le> j \<and> j < captureCount \<and> span_set caps j \<and> covers caps j k)"

text \<open>The inner loop skips the groups already marked, and still misses no container: a
  container of maximal width is never marked.\<close>

lemma no_unmarked_container:
  assumes sound: "\<forall>k<captureCount. is_contained ! k \<longrightarrow> contained_by_some caps captureCount k"
    and nofc: "\<not> find_container caps captureCount is_contained i 1"
  shows "\<not> contained_by_some caps captureCount i"
proof
  assume "contained_by_some caps captureCount i"
  define S where "S = {j. 1 \<le> j \<and> j < captureCount \<and> span_set caps j \<and> covers caps j i}"
  have "S \<subseteq> {..<captureCount}"
    by (auto simp: S_def)
  then have fin: "finite S"
    using finite_subset by blast
  from \<open>contained_by_some caps captureCount i\<close> have ne: "S \<noteq> {}"
    by (auto simp: S_def contained_by_some_def)
  define W where "W = Max (span_width caps ` S)"
  have "W \<in> span_width caps ` S"
    unfolding W_def using fin ne by (intro Max_in) auto
  then obtain m where m: "m \<in> S" "span_width caps m = W"
    by auto
  have maxW: "span_width caps j \<le> W" if "j \<in> S" for j
    unfolding W_def using fin that by (intro Max_ge) auto
  from m(1) have mS: "1 \<le> m" "m < captureCount" "span_set caps m" "covers caps m i"
    by (auto simp: S_def)
  then have "m \<noteq> i"
    using covers_irrefl by blast
  with nofc mS have "is_contained ! m"
    unfolding find_container_iff by blast
  with sound mS(2) have "contained_by_some caps captureCount m"
    by blast
  then obtain j where j: "1 \<le> j" "j < captureCount" "span_set caps j" "covers caps j m"
    by (auto simp: contained_by_some_def)
  with mS(4) have "covers caps j i"
    using covers_trans by blast
  with j have "j \<in> S"
    by (simp add: S_def)
  then have "span_width caps j \<le> W"
    by (rule maxW)
  moreover from j(4) have "span_width caps m < span_width caps j"
    by (rule covers_width)
  ultimately show False
    using m(2) by simp
qed

definition mark_inv :: "nat list \<Rightarrow> nat \<Rightarrow> bool list \<Rightarrow> nat \<Rightarrow> bool" where
  "mark_inv caps captureCount is_contained i0 \<longleftrightarrow>
     length is_contained = captureCount \<and>
     (\<forall>k<captureCount. is_contained ! k \<longrightarrow> contained_by_some caps captureCount k) \<and>
     (\<forall>k. 1 \<le> k \<and> k < i0 \<and> k < captureCount \<and> span_set caps k \<and>
          contained_by_some caps captureCount k \<longrightarrow> is_contained ! k)"

lemma mark_contained_step:
  assumes "i < captureCount"
  shows "mark_contained caps captureCount is_contained i =
     mark_contained caps captureCount
       (if span_set caps i \<and> find_container caps captureCount is_contained i 1
        then is_contained[i := True] else is_contained) (i + 1)"
  using assms by (subst mark_contained.simps) (auto simp: span_set_def Let_def)

lemma mark_inv_step:
  assumes inv: "mark_inv caps captureCount is_contained i" and i: "1 \<le> i" "i < captureCount"
  shows "mark_inv caps captureCount
       (if span_set caps i \<and> find_container caps captureCount is_contained i 1
        then is_contained[i := True] else is_contained) (i + 1)"
proof -
  from inv have len: "length is_contained = captureCount"
    and sound: "\<And>k. k < captureCount \<Longrightarrow> is_contained ! k \<Longrightarrow> contained_by_some caps captureCount k"
    and complete: "\<And>k. 1 \<le> k \<Longrightarrow> k < i \<Longrightarrow> k < captureCount \<Longrightarrow> span_set caps k \<Longrightarrow>
        contained_by_some caps captureCount k \<Longrightarrow> is_contained ! k"
    by (simp_all add: mark_inv_def)
  show ?thesis
  proof (cases "span_set caps i \<and> find_container caps captureCount is_contained i 1")
    case True
    then have ci: "contained_by_some caps captureCount i"
      unfolding find_container_iff contained_by_some_def by blast
    let ?isc = "is_contained[i := True]"
    have 1: "length ?isc = captureCount"
      using len by simp
    have 2: "contained_by_some caps captureCount k" if "k < captureCount" "?isc ! k" for k
    proof (cases "k = i")
      case True
      with ci show ?thesis by simp
    next
      case False
      with that have "is_contained ! k" by simp
      with that(1) show ?thesis by (rule sound)
    qed
    have 3: "?isc ! k" if "1 \<le> k" "k < i + 1" "k < captureCount" "span_set caps k"
      "contained_by_some caps captureCount k" for k
    proof (cases "k = i")
      case True
      with len i show ?thesis by simp
    next
      case False
      with that have "k < i" by simp
      with that have "is_contained ! k" by (intro complete)
      with False show ?thesis by simp
    qed
    from True have eq: "(if span_set caps i \<and> find_container caps captureCount is_contained i 1
        then is_contained[i := True] else is_contained) = ?isc"
      by simp
    from 1 2 3 show ?thesis
      unfolding eq mark_inv_def by blast
  next
    case False
    have 3: "is_contained ! k" if k: "1 \<le> k" "k < i + 1" "k < captureCount" "span_set caps k"
      "contained_by_some caps captureCount k" for k
    proof (cases "k = i")
      case True
      with k False have "\<not> find_container caps captureCount is_contained i 1"
        by simp
      then have "\<not> contained_by_some caps captureCount i"
        using sound by (intro no_unmarked_container) blast+
      with k True show ?thesis by simp
    next
      case False
      with k have "k < i" by simp
      with k show ?thesis by (intro complete)
    qed
    from False have eq: "(if span_set caps i \<and> find_container caps captureCount is_contained i 1
        then is_contained[i := True] else is_contained) = is_contained"
      by auto
    from len sound 3 show ?thesis
      unfolding eq mark_inv_def by blast
  qed
qed

lemma mark_contained_inv:
  "mark_inv caps captureCount is_contained i \<Longrightarrow> 1 \<le> i \<Longrightarrow>
   mark_inv caps captureCount (mark_contained caps captureCount is_contained i) captureCount"
proof (induction "captureCount - i" arbitrary: is_contained i)
  case 0
  then have "mark_contained caps captureCount is_contained i = is_contained"
    by (subst mark_contained.simps) simp
  with 0 show ?case
    by (auto simp: mark_inv_def)
next
  case (Suc n)
  then have lt: "i < captureCount" and n: "n = captureCount - (i + 1)"
    by simp_all
  from Suc.prems lt have "mark_inv caps captureCount
       (if span_set caps i \<and> find_container caps captureCount is_contained i 1
        then is_contained[i := True] else is_contained) (i + 1)"
    by (intro mark_inv_step)
  from Suc.hyps(1) [OF n this] show ?case
    by (simp add: mark_contained_step [OF lt])
qed

lemma collect_captures_entries:
  "collect_captures text caps captureCount is_contained i acc = Inr cs \<Longrightarrow> m \<in> set cs \<Longrightarrow>
   m \<in> set acc \<or> (m_start m = npos \<and> m_end m = npos) \<or>
   (\<exists>k. i \<le> k \<and> k < captureCount \<and> \<not> is_contained ! k \<and> span_set caps k \<and>
        caps ! (k * 2) < caps ! (k * 2 + 1) \<and>
        m_start m = caps ! (k * 2) \<and> m_end m = caps ! (k * 2 + 1))"
proof (induction "captureCount - i" arbitrary: i acc)
  case 0
  then have "collect_captures text caps captureCount is_contained i acc = Inr acc"
    by (subst collect_captures.simps) simp
  with 0 show ?case by simp
next
  case (Suc n)
  then have lt: "i < captureCount" and n: "n = captureCount - (i + 1)"
    by simp_all
  let ?start = "caps ! (i * 2)" and ?end = "caps ! (i * 2 + 1)"
  show ?case
  proof (cases "is_contained ! i")
    case True
    with lt Suc.prems(1)
    have "collect_captures text caps captureCount is_contained (i + 1) acc = Inr cs"
      by (subst (asm) collect_captures.simps) simp
    from Suc.hyps(1) [OF n this Suc.prems(2)] show ?thesis
      by (metis Suc_eq_plus1 Suc_leD)
  next
    case nc: False
    show ?thesis
    proof (cases "?start \<noteq> npos \<and> ?end \<noteq> npos \<and> ?end > ?start")
      case True
      with lt nc Suc.prems(1) obtain sub where
        "collect_captures text caps captureCount is_contained (i + 1)
           (acc @ [\<lparr>m_start = ?start, m_end = ?end, captured = sub\<rparr>]) = Inr cs"
        by (subst (asm) collect_captures.simps) (auto simp: Let_def split: sum.splits)
      from Suc.hyps(1) [OF n this Suc.prems(2)]
      consider "m \<in> set acc" | "m = \<lparr>m_start = ?start, m_end = ?end, captured = sub\<rparr>"
        | "m_start m = npos \<and> m_end m = npos"
        | "\<exists>k. i + 1 \<le> k \<and> k < captureCount \<and> \<not> is_contained ! k \<and> span_set caps k \<and>
             caps ! (k * 2) < caps ! (k * 2 + 1) \<and>
             m_start m = caps ! (k * 2) \<and> m_end m = caps ! (k * 2 + 1)"
        by auto
      then show ?thesis
      proof cases
        case 2
        with True lt nc have "i \<le> i \<and> i < captureCount \<and> \<not> is_contained ! i \<and> span_set caps i \<and>
            caps ! (i * 2) < caps ! (i * 2 + 1) \<and>
            m_start m = caps ! (i * 2) \<and> m_end m = caps ! (i * 2 + 1)"
          by (simp add: span_set_def)
        then show ?thesis by blast
      next
        case 4
        then show ?thesis
          by (metis Suc_eq_plus1 Suc_leD)
      qed auto
    next
      case False
      with lt nc Suc.prems(1) have
        "collect_captures text caps captureCount is_contained (i + 1)
           (acc @ [\<lparr>m_start = npos, m_end = npos, captured = []\<rparr>]) = Inr cs"
        by (subst (asm) collect_captures.simps) (auto simp: Let_def)
      from Suc.hyps(1) [OF n this Suc.prems(2)]
      consider "m \<in> set acc" | "m_start m = npos \<and> m_end m = npos"
        | "\<exists>k. i + 1 \<le> k \<and> k < captureCount \<and> \<not> is_contained ! k \<and> span_set caps k \<and>
             caps ! (k * 2) < caps ! (k * 2 + 1) \<and>
             m_start m = caps ! (k * 2) \<and> m_end m = caps ! (k * 2 + 1)"
        by auto
      then show ?thesis
      proof cases
        case 3
        then show ?thesis
          by (metis Suc_eq_plus1 Suc_leD)
      qed auto
    qed
  qed
qed


definition strictly_contained :: "Match \<Rightarrow> Match \<Rightarrow> bool" where
  "strictly_contained i j \<longleftrightarrow>
     m_start j \<le> m_start i \<and> m_end i \<le> m_end j \<and> (m_start j < m_start i \<or> m_end i < m_end j)"

lemma mark_inv_initial: "mark_inv caps captureCount (replicate captureCount False) 1"
  by (simp add: mark_inv_def)

text \<open>
  Claim C7. \<open>strictly_contained i j\<close> is the containment of the specification. For a
  capture vector of \<^verbatim>\<open>size_t\<close> values with two slots per group, no entry of the
  \<^verbatim>\<open>captures\<close> list that \<^verbatim>\<open>buildResult\<close> writes is strictly contained in another
  entry of the list.
\<close>

theorem captures_not_strictly_contained:
  assumes res: "buildResult text captureCount caps = Inr r"
    and len: "length caps = 2 * captureCount"
    and range: "\<forall>v\<in>set caps. v \<le> npos"
  shows "\<forall>i\<in>set (captures r). \<forall>j\<in>set (captures r). \<not> strictly_contained i j"
proof (intro ballI notI)
  fix a b
  assume a: "a \<in> set (captures r)" and b: "b \<in> set (captures r)"
    and sc: "strictly_contained a b"
  define isc where "isc = mark_contained caps captureCount (replicate captureCount False) 1"
  from res have coll: "collect_captures text caps captureCount isc 1 [] = Inr (captures r)"
    by (auto simp: buildResult_def Let_def isc_def split: sum.splits)
  have inv: "mark_inv caps captureCount isc captureCount"
    unfolding isc_def by (intro mark_contained_inv mark_inv_initial) simp
  have slot: "caps ! (k * 2) \<le> npos \<and> caps ! (k * 2 + 1) \<le> npos" if "k < captureCount" for k
  proof -
    from that len have "k * 2 < length caps" "k * 2 + 1 < length caps"
      by simp_all
    then have "caps ! (k * 2) \<in> set caps" "caps ! (k * 2 + 1) \<in> set caps"
      by (simp_all only: nth_mem)
    with range show ?thesis by blast
  qed
  let ?real = "\<lambda>m k. 1 \<le> k \<and> k < captureCount \<and> \<not> isc ! k \<and> span_set caps k \<and>
        caps ! (k * 2) < caps ! (k * 2 + 1) \<and>
        m_start m = caps ! (k * 2) \<and> m_end m = caps ! (k * 2 + 1)"
  from collect_captures_entries [OF coll a]
  consider (sentinel) "m_start a = npos" "m_end a = npos" | (real) ka where "?real a ka"
    by auto
  then show False
  proof cases
    case sentinel
    from collect_captures_entries [OF coll b]
    consider (bs) "m_start b = npos" "m_end b = npos" | (br) kb where "?real b kb"
      by auto
    then show False
    proof cases
      case bs
      with sentinel sc show False
        by (simp add: strictly_contained_def)
    next
      case br
      with slot [of kb] have "m_end b < npos"
        by (simp add: span_set_def)
      with sentinel sc show False
        by (simp add: strictly_contained_def)
    qed
  next
    case real
    with slot [of ka] have a_lt: "m_start a < npos"
      by (simp add: span_set_def)
    from collect_captures_entries [OF coll b]
    consider (bs) "m_start b = npos" "m_end b = npos" | (br) kb where "?real b kb"
      by auto
    then show False
    proof cases
      case bs
      with a_lt sc show False
        by (simp add: strictly_contained_def)
    next
      case br
      with real sc have "covers caps kb ka"
        by (simp add: strictly_contained_def covers_def)
      with br have "contained_by_some caps captureCount ka"
        unfolding contained_by_some_def by blast
      with inv real have "isc ! ka"
        unfolding mark_inv_def by blast
      with real show False by simp
    qed
  qed
qed

lemma buildResult_example:
  "buildResult ''abcdef'' 4 [0, 5, 0, 5, 1, 3, npos, npos] =
     Inr \<lparr>matched = True, position = 0, matched_text = ''abcde'',
          captures = [\<lparr>m_start = 0, m_end = 5, captured = ''abcde''\<rparr>,
                      \<lparr>m_start = npos, m_end = npos, captured = []\<rparr>]\<rparr>"
  by (simp add: buildResult_def mark_contained.simps find_container.simps
        collect_captures.simps substr_def size_sub_def npos_def Let_def)

theorem captures_not_strictly_contained_witness:
  "buildResult ''abcdef'' 4 [0, 5, 0, 5, 1, 3, npos, npos] =
     Inr \<lparr>matched = True, position = 0, matched_text = ''abcde'',
          captures = [\<lparr>m_start = 0, m_end = 5, captured = ''abcde''\<rparr>,
                      \<lparr>m_start = npos, m_end = npos, captured = []\<rparr>]\<rparr>
   \<and> length [0, 5, 0, 5, 1, 3, npos, npos] = 2 * 4
   \<and> \<not> strictly_contained \<lparr>m_start = 0, m_end = 5, captured = ''abcde''\<rparr>
                            \<lparr>m_start = npos, m_end = npos, captured = []\<rparr>
   \<and> \<not> strictly_contained \<lparr>m_start = npos, m_end = npos, captured = []\<rparr>
                            \<lparr>m_start = 0, m_end = 5, captured = ''abcde''\<rparr>"
proof -
  have range: "\<forall>v\<in>set [0, 5, 0, 5, 1, 3, npos, npos]. v \<le> npos"
    by (simp add: npos_def)
  have len: "length [0, 5, 0, 5, 1, 3, npos, npos] = 2 * 4"
    by simp
  from captures_not_strictly_contained [OF buildResult_example len range]
  have "\<not> strictly_contained \<lparr>m_start = 0, m_end = 5, captured = ''abcde''\<rparr>
                            \<lparr>m_start = npos, m_end = npos, captured = []\<rparr>"
    and "\<not> strictly_contained \<lparr>m_start = npos, m_end = npos, captured = []\<rparr>
                            \<lparr>m_start = 0, m_end = 5, captured = ''abcde''\<rparr>"
    by simp_all
  with buildResult_example len show ?thesis
    by blast
qed

section \<open>Runs of the virtual machine\<close>

text \<open>Offsets never fall below the offset the run started at: the text position, slot 0
  of the capture vector, and both in every frame of the backtrack stack.\<close>

definition run_inv :: "nat \<Rightarrow> nat \<Rightarrow> nat list \<Rightarrow> BacktrackPoint list \<Rightarrow> bool" where
  "run_inv start textPos caps stack \<longleftrightarrow>
     start \<le> textPos \<and> caps \<noteq> [] \<and> start \<le> caps ! 0 \<and>
     (\<forall>bp\<in>set stack. start \<le> bp_textPos bp \<and> savedCaptures bp \<noteq> [] \<and>
        start \<le> savedCaptures bp ! 0)"

lemma vm_step_Continue_inv:
  assumes "vm_step inst text pc textPos caps stack = Continue pc' textPos' caps' stack'"
    and "run_inv start textPos caps stack"
  shows "run_inv start textPos' caps' stack'"
proof (cases inst)
  case (SAVE operand)
  with assms show ?thesis
    by (auto simp: run_inv_def Let_def nth_list_update split: if_splits)
qed (use assms in \<open>auto simp: run_inv_def advance_if_def Let_def split: if_splits\<close>)

lemma vm_step_Accept:
  assumes "vm_step inst text pc textPos caps stack = Accept caps'"
  shows "inst = MATCH \<and> 1 < length caps \<and> caps' = caps[1 := textPos]"
  using assms
  by (cases inst) (auto simp: advance_if_def Let_def split: if_splits)

lemma buildResult_Inr:
  assumes "buildResult text captureCount caps = Inr r"
  shows "position r = caps ! 0 \<and> caps ! 0 \<le> length text \<and>
         matched_text r = take (size_sub (caps ! 1) (caps ! 0)) (drop (caps ! 0) text)"
  using assms
  by (auto simp: buildResult_def substr_def Let_def split: sum.splits if_splits)

lemma vm_loop_position:
  assumes "vm_loop prog captureCount text pc textPos caps stack = Some y"
  shows "run_inv start textPos caps stack \<longrightarrow> (\<forall>r. y = Matched r \<longrightarrow> start \<le> position r)"
proof (rule vm_loop.raw_induct
    [where P = "\<lambda>prog captureCount text pc textPos caps stack y.
       run_inv start textPos caps stack \<longrightarrow> (\<forall>r. y = Matched r \<longrightarrow> start \<le> position r)",
     OF _ assms], goal_cases)
  case (1 loop prog captureCount tx pc textPos caps stack y)
  note IH = "1"(1) and eq = "1"(2)
  show ?case
  proof (intro impI allI)
    fix r
    assume inv: "run_inv start textPos caps stack" and y: "y = Matched r"
    let ?s = "if pc < length prog then vm_step (prog ! pc) tx pc textPos caps stack else Fail"
    show "start \<le> position r"
    proof (cases ?s)
      case (Continue pc' textPos' caps' stack')
      with eq have run: "loop prog captureCount tx pc' textPos' caps' stack' = Some y"
        by simp
      from Continue have "vm_step (prog ! pc) tx pc textPos caps stack =
          Continue pc' textPos' caps' stack'"
        by (simp split: if_splits)
      from this inv have "run_inv start textPos' caps' stack'"
        by (rule vm_step_Continue_inv)
      with IH [OF run] y show ?thesis by blast
    next
      case Fail
      show ?thesis
      proof (cases stack)
        case Nil
        with Fail eq y show ?thesis by simp
      next
        case (Cons bp rest)
        with Fail eq have run: "loop prog captureCount tx (bp_pc bp) (bp_textPos bp)
            (savedCaptures bp) rest = Some y"
          by simp
        from inv Cons have "run_inv start (bp_textPos bp) (savedCaptures bp) rest"
          by (simp add: run_inv_def)
        with IH [OF run] y show ?thesis by blast
      qed
    next
      case (Accept caps')
      then have "vm_step (prog ! pc) tx pc textPos caps stack = Accept caps'"
        by (simp split: if_splits)
      then have caps': "caps' = caps[1 := textPos]" "1 < length caps"
        using vm_step_Accept by blast+
      from Accept eq y have "buildResult tx captureCount caps' = Inr r"
        by (simp split: sum.splits)
      then have "position r = caps' ! 0"
        using buildResult_Inr by blast
      with caps' inv show ?thesis
        by (simp add: run_inv_def)
    next
      case (Abort e)
      with eq y show ?thesis by simp
    qed
  qed
qed

lemma executeAt_position:
  assumes "executeAt prog captureCount text pos = Some (Matched r)"
  shows "pos \<le> position r"
proof -
  let ?caps = "replicate (captureCount * 2) npos"
  from assms have ne: "0 < length ?caps"
    and run: "vm_loop prog captureCount text 0 pos (?caps[0 := pos]) [] = Some (Matched r)"
    by (simp_all add: executeAt_def Let_def split: if_splits)
  from ne have "run_inv pos pos (?caps[0 := pos]) []"
    by (simp add: run_inv_def)
  with vm_loop_position [OF run, of pos] show ?thesis by blast
qed

lemma vm_loop_result:
  assumes "vm_loop prog captureCount text pc textPos caps stack = Some y"
  shows "\<forall>r. y = Matched r \<longrightarrow> position r \<le> length text \<and>
              (\<exists>n. matched_text r = take n (drop (position r) text))"
proof (rule vm_loop.raw_induct
    [where P = "\<lambda>prog captureCount text pc textPos caps stack y.
       \<forall>r. y = Matched r \<longrightarrow> position r \<le> length text \<and>
              (\<exists>n. matched_text r = take n (drop (position r) text))",
     OF _ assms], goal_cases)
  case (1 loop prog captureCount tx pc textPos caps stack y)
  note IH = "1"(1) and eq = "1"(2)
  let ?s = "if pc < length prog then vm_step (prog ! pc) tx pc textPos caps stack else Fail"
  show ?case
  proof (cases ?s)
    case (Continue pc' textPos' caps' stack')
    with eq have "loop prog captureCount tx pc' textPos' caps' stack' = Some y"
      by simp
    then show ?thesis by (rule IH)
  next
    case Fail
    show ?thesis
    proof (cases stack)
      case Nil
      with Fail eq show ?thesis by simp
    next
      case (Cons bp rest)
      with Fail eq have "loop prog captureCount tx (bp_pc bp) (bp_textPos bp)
          (savedCaptures bp) rest = Some y"
        by simp
      then show ?thesis by (rule IH)
    qed
  next
    case (Accept caps')
    show ?thesis
    proof (intro allI impI)
      fix r
      assume "y = Matched r"
      with Accept eq have "buildResult tx captureCount caps' = Inr r"
        by (simp split: sum.splits)
      from buildResult_Inr [OF this]
      show "position r \<le> length tx \<and> (\<exists>n. matched_text r = take n (drop (position r) tx))"
        by auto
    qed
  next
    case (Abort e)
    with eq show ?thesis by auto
  qed
qed

lemma executeAt_result:
  assumes "executeAt prog captureCount text pos = Some (Matched r)"
  shows "position r \<le> length text \<and>
         (\<exists>n. matched_text r = take n (drop (position r) text))"
proof -
  from assms have "vm_loop prog captureCount text 0 pos
      ((replicate (captureCount * 2) npos)[0 := pos]) [] = Some (Matched r)"
    by (simp add: executeAt_def Let_def split: if_splits)
  from vm_loop_result [OF this] show ?thesis by blast
qed

text \<open>The program of the pattern \<^verbatim>\<open>^*\<close> never leaves its loop at offset 0: the anchor
  consumes nothing, and every round pushes one more frame.\<close>

lemma anchor_star_loop:
  assumes "vm_loop prog captureCount text pc textPos caps stack = Some y"
  shows "\<not> (prog = [SPLIT 1 3, ANCHOR_START, JUMP 0, MATCH] \<and> textPos = 0 \<and> pc < 3)"
proof (rule vm_loop.raw_induct
    [where P = "\<lambda>prog captureCount text pc textPos caps stack y.
       \<not> (prog = [SPLIT 1 3, ANCHOR_START, JUMP 0, MATCH] \<and> textPos = 0 \<and> pc < 3)",
     OF _ assms], goal_cases)
  case (1 loop prog captureCount tx pc textPos caps stack y)
  note IH = "1"(1) and eq = "1"(2)
  show ?case
  proof
    assume a: "prog = [SPLIT 1 3, ANCHOR_START, JUMP 0, MATCH] \<and> textPos = 0 \<and> pc < 3"
    then consider "pc = 0" | "pc = 1" | "pc = 2"
      by linarith
    then show False
    proof cases
      case 1
      with a eq have "loop prog captureCount tx 1 0 caps
          (\<lparr>bp_pc = 3, bp_textPos = 0, savedCaptures = caps\<rparr> # stack) = Some y"
        by simp
      from IH [OF this] a show False by simp
    next
      case 2
      with a eq have "loop prog captureCount tx 2 0 caps stack = Some y"
        by (simp add: numeral_2_eq_2)
      from IH [OF this] a show False by simp
    next
      case 3
      with a eq have "loop prog captureCount tx 0 0 caps stack = Some y"
        by (simp add: numeral_2_eq_2)
      from IH [OF this] a show False by simp
    qed
  qed
qed

lemma anchor_star_diverges:
  "executeAt [SPLIT 1 3, ANCHOR_START, JUMP 0, MATCH] (Suc n) text 0 = None"
proof (cases "executeAt [SPLIT 1 3, ANCHOR_START, JUMP 0, MATCH] (Suc n) text 0")
  case (Some y)
  then have "vm_loop [SPLIT 1 3, ANCHOR_START, JUMP 0, MATCH] (Suc n) text 0 0
      ((replicate (Suc n * 2) npos)[0 := 0]) [] = Some y"
    by (simp add: executeAt_def Let_def)
  from anchor_star_loop [OF this] show ?thesis by simp
qed simp

section \<open>Failure in the virtual machine\<close>




section \<open>Search\<close>

definition search_skips :: "Instruction list \<Rightarrow> nat \<Rightarrow> string \<Rightarrow> nat \<Rightarrow> bool" where
  "search_skips prog captureCount text q \<longleftrightarrow>
     (case executeAt prog captureCount text q of
        Some NoMatch \<Rightarrow> True
      | Some (Matched r) \<Rightarrow> matched_text r = [] \<and> q < length text
      | _ \<Rightarrow> False)"

definition search_accepts ::
  "Instruction list \<Rightarrow> nat \<Rightarrow> string \<Rightarrow> nat \<Rightarrow> MatchResult \<Rightarrow> bool" where
  "search_accepts prog captureCount text p r \<longleftrightarrow>
     p \<le> length text \<and> executeAt prog captureCount text p = Some (Matched r) \<and>
     (matched_text r \<noteq> [] \<or> p = length text)"

lemma skips_not_accepts:
  "search_skips prog captureCount text p \<Longrightarrow> \<not> search_accepts prog captureCount text p r"
  by (auto simp: search_skips_def search_accepts_def)

lemma search_loop_end:
  "length text < pos \<Longrightarrow> VM_search_loop prog captureCount text pos prev = Some NoMatch"
  by (subst VM_search_loop.simps) simp

lemma search_loop_skip:
  assumes "pos \<le> length text" and "search_skips prog captureCount text pos"
  shows "VM_search_loop prog captureCount text pos 0 =
         VM_search_loop prog captureCount text (pos + 1) 0"
  using assms
  by (subst VM_search_loop.simps)
     (auto simp: search_skips_def result_length_def Let_def split: option.splits outcome.splits)

lemma search_loop_accept:
  assumes "search_accepts prog captureCount text pos r"
  shows "VM_search_loop prog captureCount text pos 0 = Some (Matched r)"
  using assms
  by (subst VM_search_loop.simps) (auto simp: search_accepts_def result_length_def Let_def)

lemma search_loop_other:
  assumes "pos \<le> length text" and "\<not> search_skips prog captureCount text pos"
    and "\<forall>r. \<not> search_accepts prog captureCount text pos r"
  shows "VM_search_loop prog captureCount text pos 0 \<noteq> Some NoMatch \<and>
         VM_search_loop prog captureCount text pos 0 \<noteq> Some (Matched r)"
proof (cases "executeAt prog captureCount text pos")
  case None
  with assms(1) show ?thesis
    by (subst (1 2) VM_search_loop.simps) simp
next
  case (Some out)
  show ?thesis
  proof (cases out)
    case NoMatch
    with Some assms(2) show ?thesis
      by (simp add: search_skips_def)
  next
    case (Matched r')
    with Some assms show ?thesis
      by (auto simp: search_skips_def search_accepts_def)
  next
    case (Raised e)
    with Some assms(1) show ?thesis
      by (subst (1 2) VM_search_loop.simps) simp
  qed
qed

lemma search_loop_matched_iff:
  "VM_search_loop prog captureCount text pos 0 = Some (Matched r) \<longleftrightarrow>
     (\<exists>p. pos \<le> p \<and> search_accepts prog captureCount text p r \<and>
          (\<forall>q. pos \<le> q \<and> q < p \<longrightarrow> search_skips prog captureCount text q))"
proof (induction "Suc (length text) - pos" arbitrary: pos)
  case 0
  then have "length text < pos" by simp
  then show ?case
    by (auto simp: search_loop_end search_accepts_def)
next
  case (Suc n)
  then have le: "pos \<le> length text" and n: "n = Suc (length text) - (pos + 1)"
    by simp_all
  note IH = Suc.hyps(1) [OF n]
  let ?acc = "\<lambda>p. search_accepts prog captureCount text p r"
  let ?skip = "\<lambda>q. search_skips prog captureCount text q"
  show ?case
  proof (cases "?skip pos")
    case True
    have "(\<exists>p. pos \<le> p \<and> ?acc p \<and> (\<forall>q. pos \<le> q \<and> q < p \<longrightarrow> ?skip q)) \<longleftrightarrow>
          (\<exists>p. pos + 1 \<le> p \<and> ?acc p \<and> (\<forall>q. pos + 1 \<le> q \<and> q < p \<longrightarrow> ?skip q))"
      (is "?L \<longleftrightarrow> ?R")
    proof
      assume ?L
      then obtain p where p: "pos \<le> p" "?acc p" "\<forall>q. pos \<le> q \<and> q < p \<longrightarrow> ?skip q"
        by blast
      from p(2) True have "p \<noteq> pos"
        using skips_not_accepts by blast
      with p(1) have "pos + 1 \<le> p" by simp
      moreover from p(3) have "\<forall>q. pos + 1 \<le> q \<and> q < p \<longrightarrow> ?skip q" by simp
      ultimately show ?R using p(2) by blast
    next
      assume ?R
      then obtain p where p: "pos + 1 \<le> p" "?acc p" "\<forall>q. pos + 1 \<le> q \<and> q < p \<longrightarrow> ?skip q"
        by blast
      have "?skip q" if "pos \<le> q \<and> q < p" for q
      proof (cases "q = pos")
        case True
        with \<open>?skip pos\<close> show ?thesis by simp
      next
        case False
        with that have "pos + 1 \<le> q \<and> q < p" by simp
        with p(3) show ?thesis by blast
      qed
      with p show ?L
        by (metis Suc_eq_plus1 Suc_leD)
    qed
    with IH search_loop_skip [OF le True] show ?thesis by simp
  next
    case nskip: False
    show ?thesis
    proof (cases "\<exists>r0. search_accepts prog captureCount text pos r0")
      case True
      then obtain r0 where r0: "search_accepts prog captureCount text pos r0" ..
      then have run: "VM_search_loop prog captureCount text pos 0 = Some (Matched r0)"
        by (rule search_loop_accept)
      show ?thesis
      proof
        assume "VM_search_loop prog captureCount text pos 0 = Some (Matched r)"
        with run have "r = r0" by simp
        with r0 show "\<exists>p. pos \<le> p \<and> ?acc p \<and> (\<forall>q. pos \<le> q \<and> q < p \<longrightarrow> ?skip q)"
          by (intro exI [of _ pos]) auto
      next
        assume "\<exists>p. pos \<le> p \<and> ?acc p \<and> (\<forall>q. pos \<le> q \<and> q < p \<longrightarrow> ?skip q)"
        then obtain p where p: "pos \<le> p" "?acc p" "\<forall>q. pos \<le> q \<and> q < p \<longrightarrow> ?skip q"
          by blast
        have "p = pos"
        proof (rule ccontr)
          assume "p \<noteq> pos"
          with p(1) p(3) have "?skip pos" by simp
          with nskip show False by simp
        qed
        with p(2) r0 have "r = r0"
          by (simp add: search_accepts_def)
        with run show "VM_search_loop prog captureCount text pos 0 = Some (Matched r)"
          by simp
      qed
    next
      case False
      then have none: "\<forall>r. \<not> search_accepts prog captureCount text pos r" by simp
      have "\<not> (\<exists>p. pos \<le> p \<and> ?acc p \<and> (\<forall>q. pos \<le> q \<and> q < p \<longrightarrow> ?skip q))"
      proof
        assume "\<exists>p. pos \<le> p \<and> ?acc p \<and> (\<forall>q. pos \<le> q \<and> q < p \<longrightarrow> ?skip q)"
        then obtain p where p: "pos \<le> p" "?acc p" "\<forall>q. pos \<le> q \<and> q < p \<longrightarrow> ?skip q"
          by blast
        show False
        proof (cases "p = pos")
          case True
          with p(2) none show False by simp
        next
          case False
          with p(1) p(3) have "?skip pos" by simp
          with nskip show False by simp
        qed
      qed
      with search_loop_other [OF le nskip none, of r] show ?thesis by simp
    qed
  qed
qed

lemma search_loop_nomatch_iff:
  "VM_search_loop prog captureCount text pos 0 = Some NoMatch \<longleftrightarrow>
     (\<forall>q. pos \<le> q \<and> q \<le> length text \<longrightarrow> search_skips prog captureCount text q)"
proof (induction "Suc (length text) - pos" arbitrary: pos)
  case 0
  then have "length text < pos" by simp
  then show ?case
    by (auto simp: search_loop_end)
next
  case (Suc n)
  then have le: "pos \<le> length text" and n: "n = Suc (length text) - (pos + 1)"
    by simp_all
  note IH = Suc.hyps(1) [OF n]
  let ?skip = "\<lambda>q. search_skips prog captureCount text q"
  show ?case
  proof (cases "?skip pos")
    case True
    have "(\<forall>q. pos \<le> q \<and> q \<le> length text \<longrightarrow> ?skip q) \<longleftrightarrow>
          (\<forall>q. pos + 1 \<le> q \<and> q \<le> length text \<longrightarrow> ?skip q)"
    proof
      assume "\<forall>q. pos \<le> q \<and> q \<le> length text \<longrightarrow> ?skip q"
      then show "\<forall>q. pos + 1 \<le> q \<and> q \<le> length text \<longrightarrow> ?skip q" by simp
    next
      assume r: "\<forall>q. pos + 1 \<le> q \<and> q \<le> length text \<longrightarrow> ?skip q"
      show "\<forall>q. pos \<le> q \<and> q \<le> length text \<longrightarrow> ?skip q"
      proof (intro allI impI)
        fix q assume q: "pos \<le> q \<and> q \<le> length text"
        show "?skip q"
        proof (cases "q = pos")
          case True
          with \<open>?skip pos\<close> show ?thesis by simp
        next
          case False
          with q have "pos + 1 \<le> q \<and> q \<le> length text" by simp
          with r show ?thesis by blast
        qed
      qed
    qed
    with IH search_loop_skip [OF le True] show ?thesis by simp
  next
    case nskip: False
    with le have rhs: "\<not> (\<forall>q. pos \<le> q \<and> q \<le> length text \<longrightarrow> ?skip q)"
      by blast
    show ?thesis
    proof (cases "\<exists>r0. search_accepts prog captureCount text pos r0")
      case True
      then obtain r0 where "search_accepts prog captureCount text pos r0" ..
      then have "VM_search_loop prog captureCount text pos 0 = Some (Matched r0)"
        by (rule search_loop_accept)
      with rhs show ?thesis by simp
    next
      case False
      then have "\<forall>r. \<not> search_accepts prog captureCount text pos r" by simp
      from search_loop_other [OF le nskip this] rhs show ?thesis by simp
    qed
  qed
qed


lemma compile_caret:
  "Regex_compile ''^'' =
     Some (Inr \<lparr>pattern = ''^'', instructions = [ANCHOR_START, MATCH],
                compiled = True, numCaptures = 0\<rparr>)"
  by code_simp

lemma compile_a_star:
  "Regex_compile ''a*'' =
     Some (Inr \<lparr>pattern = ''a*'', instructions = [SPLIT 1 3, CHAR_op CHR ''a'', JUMP 0, MATCH],
                compiled = True, numCaptures = 0\<rparr>)"
  by code_simp

lemma caret_at_0:
  "executeAt [ANCHOR_START, MATCH] 1 ''a'' 0 =
     Some (Matched \<lparr>matched = True, position = 0, matched_text = [], captures = []\<rparr>)"
  apply (simp add: executeAt_def)
  apply (simp add: vm_loop.simps advance_if_def)
  apply (simp add: buildResult_no_groups substr_def size_sub_def npos_def)
  done

lemma caret_at_1:
  "executeAt [ANCHOR_START, MATCH] 1 ''a'' 1 = Some NoMatch"
  apply (simp add: executeAt_def)
  apply (simp add: vm_loop.simps advance_if_def)
  done

lemma a_star_at_0:
  "executeAt [SPLIT 1 3, CHAR_op CHR ''a'', JUMP 0, MATCH] 1 ''ba'' 0 =
     Some (Matched \<lparr>matched = True, position = 0, matched_text = [], captures = []\<rparr>)"
  apply (simp add: executeAt_def)
  apply (simp add: vm_loop.simps advance_if_def)
  apply (simp add: buildResult_no_groups substr_def size_sub_def npos_def)
  done

lemma a_star_at_1:
  "executeAt [SPLIT 1 3, CHAR_op CHR ''a'', JUMP 0, MATCH] 1 ''ba'' 1 =
     Some (Matched \<lparr>matched = True, position = 1, matched_text = ''a'', captures = []\<rparr>)"
  apply (simp add: executeAt_def)
  apply (simp add: vm_loop.simps advance_if_def)
  apply (simp add: buildResult_no_groups substr_def size_sub_def npos_def)
  done

lemma search_caret:
  "VM_search [ANCHOR_START, MATCH] 1 ''a'' 0 = Some NoMatch"
  unfolding VM_search_def search_loop_nomatch_iff
proof (intro allI impI)
  fix q :: nat
  assume "0 \<le> q \<and> q \<le> length ''a''"
  then have "q = 0 \<or> q = 1"
    by fastforce
  with caret_at_0 caret_at_1 show "search_skips [ANCHOR_START, MATCH] 1 ''a'' q"
    by (auto simp: search_skips_def)
qed

lemma search_a_star:
  "VM_search [SPLIT 1 3, CHAR_op CHR ''a'', JUMP 0, MATCH] 1 ''ba'' 0 =
     Some (Matched \<lparr>matched = True, position = 1, matched_text = ''a'', captures = []\<rparr>)"
  unfolding VM_search_def search_loop_matched_iff
  using a_star_at_0 a_star_at_1
  by (intro exI [of _ 1]) (auto simp: search_accepts_def search_skips_def)

text \<open>
  Claim C2 fails on the code. \<^verbatim>\<open>VM::search\<close> does not return an empty match found
  before the end of the text, it moves on to the next offset. The pattern \<^verbatim>\<open>^\<close> matches
  the text \<^verbatim>\<open>a\<close> at offset 0, and the search from 0 finds nothing; the pattern \<^verbatim>\<open>a*\<close>
  matches the text \<^verbatim>\<open>ba\<close> at offset 0, and the search returns the match at offset 1.
\<close>

theorem search_first_hit_counterexample:
  "Regex_compile ''^'' =
     Some (Inr \<lparr>pattern = ''^'', instructions = [ANCHOR_START, MATCH],
                compiled = True, numCaptures = 0\<rparr>)
   \<and> Regex_match \<lparr>pattern = ''^'', instructions = [ANCHOR_START, MATCH],
                   compiled = True, numCaptures = 0\<rparr> ''a'' 0 =
       Some (Matched \<lparr>matched = True, position = 0, matched_text = [], captures = []\<rparr>)
   \<and> Regex_search \<lparr>pattern = ''^'', instructions = [ANCHOR_START, MATCH],
                    compiled = True, numCaptures = 0\<rparr> ''a'' 0 = Some NoMatch
   \<and> Regex_compile ''a*'' =
       Some (Inr \<lparr>pattern = ''a*'', instructions = [SPLIT 1 3, CHAR_op CHR ''a'', JUMP 0, MATCH],
                  compiled = True, numCaptures = 0\<rparr>)
   \<and> Regex_match \<lparr>pattern = ''a*'', instructions = [SPLIT 1 3, CHAR_op CHR ''a'', JUMP 0, MATCH],
                   compiled = True, numCaptures = 0\<rparr> ''ba'' 0 =
       Some (Matched \<lparr>matched = True, position = 0, matched_text = [], captures = []\<rparr>)
   \<and> Regex_search \<lparr>pattern = ''a*'', instructions = [SPLIT 1 3, CHAR_op CHR ''a'', JUMP 0, MATCH],
                    compiled = True, numCaptures = 0\<rparr> ''ba'' 0 =
       Some (Matched \<lparr>matched = True, position = 1, matched_text = ''a'', captures = []\<rparr>)"
  using compile_caret compile_a_star caret_at_0 a_star_at_0 search_caret search_a_star
  by (simp add: Regex_match_def Regex_search_def captureCount_of_def)

text \<open>
  Claim C2, amended. The search passes over an offset where \<^verbatim>\<open>executeAt\<close> finds no
  match, and over an offset before the end of the text where it finds an empty match; it
  accepts the result of \<^verbatim>\<open>executeAt\<close> at an offset where the match is not empty, and
  at the end of the text. The search from \<open>start\<close> returns a result exactly when that
  result is accepted at some offset from \<open>start\<close> on and every offset before it is passed
  over: it is the result at the first accepted offset. It returns ``no match'' exactly
  when every offset from \<open>start\<close> to the length of the text is passed over.
\<close>

theorem search_first_accepted_offset:
  "compiled rx \<Longrightarrow>
   (Regex_search rx text start = Some (Matched r) \<longleftrightarrow>
      (\<exists>p. start \<le> p \<and> search_accepts (instructions rx) (captureCount_of rx) text p r \<and>
           (\<forall>q. start \<le> q \<and> q < p \<longrightarrow>
                search_skips (instructions rx) (captureCount_of rx) text q)))
   \<and> (Regex_search rx text start = Some NoMatch \<longleftrightarrow>
      (\<forall>q. start \<le> q \<and> q \<le> length text \<longrightarrow>
           search_skips (instructions rx) (captureCount_of rx) text q))"
  by (simp add: Regex_search_def VM_search_def search_loop_matched_iff search_loop_nomatch_iff)

theorem search_first_accepted_offset_witness:
  "compiled \<lparr>pattern = ''a*'', instructions = [SPLIT 1 3, CHAR_op CHR ''a'', JUMP 0, MATCH],
             compiled = True, numCaptures = 0\<rparr>
   \<and> search_skips [SPLIT 1 3, CHAR_op CHR ''a'', JUMP 0, MATCH] 1 ''ba'' 0
   \<and> search_accepts [SPLIT 1 3, CHAR_op CHR ''a'', JUMP 0, MATCH] 1 ''ba'' 1
        \<lparr>matched = True, position = 1, matched_text = ''a'', captures = []\<rparr>
   \<and> Regex_search \<lparr>pattern = ''a*'', instructions = [SPLIT 1 3, CHAR_op CHR ''a'', JUMP 0, MATCH],
                    compiled = True, numCaptures = 0\<rparr> ''ba'' 0 =
       Some (Matched \<lparr>matched = True, position = 1, matched_text = ''a'', captures = []\<rparr>)"
proof -
  let ?prog = "[SPLIT 1 3, CHAR_op CHR ''a'', JUMP 0, MATCH]"
  let ?rx = "\<lparr>pattern = ''a*'', instructions = ?prog, compiled = True, numCaptures = 0\<rparr>"
  let ?r = "\<lparr>matched = True, position = 1, matched_text = ''a'', captures = []\<rparr>"
  have skip: "search_skips ?prog 1 ''ba'' 0"
    using a_star_at_0 by (simp add: search_skips_def)
  have acc: "search_accepts ?prog 1 ''ba'' 1 ?r"
    using a_star_at_1 by (simp add: search_accepts_def)
  have "\<exists>p. 0 \<le> p \<and> search_accepts (instructions ?rx) (captureCount_of ?rx) ''ba'' p ?r \<and>
          (\<forall>q. 0 \<le> q \<and> q < p \<longrightarrow>
               search_skips (instructions ?rx) (captureCount_of ?rx) ''ba'' q)"
    using skip acc by (intro exI [of _ 1]) (auto simp: captureCount_of_def)
  with search_first_accepted_offset [of ?rx "''ba''" 0 ?r]
  have "Regex_search ?rx ''ba'' 0 = Some (Matched ?r)"
    by simp
  with skip acc show ?thesis
    by simp
qed

end
